theory Spec2Isabelle
  imports Main "HOL-Library.Word" "HOL-Library.Signed_Division"
begin

unbundle bit_operations_syntax

section \<open>The report synthesizer of Joystick.c\<close>

subsection \<open>What Joystick.h declares\<close>

text \<open>
  Joystick.c includes Joystick.h, which is not among the sources. The constants it
  defines (the polling interval, the stick values, the directional-pad values and the
  button masks) are the fields of a record that every function using one of them takes
  as its first argument; no value is fixed here.
\<close>

record joystick_h =
  POLLING_MS :: int
  STICK_MIN :: "8 word"
  STICK_CENTER :: "8 word"
  HAT_TOP :: "8 word"
  HAT_RIGHT :: "8 word"
  HAT_BOTTOM :: "8 word"
  HAT_LEFT :: "8 word"
  HAT_CENTER :: "8 word"
  SWITCH_A :: "16 word"
  SWITCH_LCLICK :: "16 word"

text \<open>
  Modelled from the spec: the declaration of \<open>USB_JoystickReport_Input_t\<close> is in the
  absent Joystick.h. The spec's wire layout has a 16-bit button mask, the
  directional-pad value, four 8-bit stick axes and a vendor-specific byte; the pad value
  is held in a byte here.
\<close>

record USB_JoystickReport_Input_t =
  Button :: "16 word"
  HAT :: "8 word"
  LX :: "8 word"
  LY :: "8 word"
  RX :: "8 word"
  RY :: "8 word"
  VendorSpec :: "8 word"

subsection \<open>The globals of Joystick.c\<close>

datatype State_t = SYNC_CONTROLLER | SYNC_POSITION | MOVE | STOP | DONE

text \<open>
  The file-scope variables. The C \<open>int\<close>s are HOL integers: every increment and
  decrement of the code is guarded by a comparison or, for \<open>ypos\<close>, bounded by the
  invariant proved below, so no arithmetic of a run from the initial state leaves the range
  of a 16-bit \<open>int\<close>.
\<close>

record globals =
  state :: State_t
  echoes :: int
  splat3_lag_correction_count :: int
  last_report :: USB_JoystickReport_Input_t
  command_count :: int
  report_count :: int
  xpos :: int
  ypos :: int
  portsval :: int

definition zero_report :: USB_JoystickReport_Input_t where
  "zero_report = \<lparr>Button = 0, HAT = 0, LX = 0, LY = 0, RX = 0, RY = 0, VendorSpec = 0\<rparr>"

text \<open>The initialisers of the globals; \<open>last_report\<close> has none and is zeroed.\<close>

definition init :: globals where
  "init = \<lparr>state = SYNC_CONTROLLER, echoes = 0, splat3_lag_correction_count = 0,
     last_report = zero_report, command_count = 0, report_count = 0,
     xpos = 0, ypos = 0, portsval = 0\<rparr>"

subsection \<open>The macros\<close>

definition ECHOES :: int where
  "ECHOES = 2"

definition max_macro :: "int \<Rightarrow> int \<Rightarrow> int" where
  "max_macro a b = (if a > b then a else b)"

text \<open>C's division truncates towards zero: \<open>sdiv\<close> and \<open>smod\<close>.\<close>

definition ms_2_count :: "joystick_h \<Rightarrow> int \<Rightarrow> int" where
  "ms_2_count h ms = ms sdiv ECHOES sdiv (max_macro (POLLING_MS h) 8 sdiv 8 * 8)"

text \<open>
  \<open>image_data\<close> is declared \<open>extern const uint8_t image_data[0x12c1]\<close>; its bytes are a
  list. A read outside the array, and a shift by a negative amount, are undefined in C:
  the model returns \<open>None\<close> there.
\<close>

definition pgm_read_byte :: "8 word list \<Rightarrow> int \<Rightarrow> 8 word option" where
  "pgm_read_byte mem i = (if 0 \<le> i \<and> i < int (length mem) then Some (mem ! nat i) else None)"

definition is_black :: "8 word list \<Rightarrow> int \<Rightarrow> int \<Rightarrow> bool option" where
  "is_black image_data x y =
     (case pgm_read_byte image_data (x sdiv 8 + y * 40) of
        None \<Rightarrow> None
      | Some b \<Rightarrow>
          if x smod 8 < 0 then None
          else Some ((uint b AND push_bit (nat (x smod 8)) 1) \<noteq> 0))"

subsection \<open>GetNextReport\<close>

text \<open>
  The report buffer \<open>ReportData\<close> points to is an argument (what the caller left in
  it) and a result (what the call leaves in it). \<open>prepare_empty\<close> is the \<open>memset\<close> and the
  five assignments at the top of the function.
\<close>

definition prepare_empty :: "joystick_h \<Rightarrow> USB_JoystickReport_Input_t \<Rightarrow> USB_JoystickReport_Input_t" where
  "prepare_empty h ReportData =
     (ReportData\<lparr>Button := 0, HAT := 0, LX := 0, LY := 0, RX := 0, RY := 0, VendorSpec := 0\<rparr>)
       \<lparr>LX := STICK_CENTER h, LY := STICK_CENTER h, RX := STICK_CENTER h,
        RY := STICK_CENTER h, HAT := HAT_CENTER h\<rparr>"

text \<open>The \<open>SYNC_CONTROLLER\<close> case of the switch.\<close>

definition sync_controller_case ::
  "joystick_h \<Rightarrow> USB_JoystickReport_Input_t \<Rightarrow> globals \<Rightarrow> USB_JoystickReport_Input_t \<times> globals" where
  "sync_controller_case h r s =
     (if command_count s > ms_2_count h 2000
      then (r, s\<lparr>command_count := 0, state := SYNC_POSITION\<rparr>)
      else (r, s\<lparr>command_count := command_count s + 1\<rparr>))"

text \<open>The \<open>SYNC_POSITION\<close> case.\<close>

definition sync_position_case ::
  "joystick_h \<Rightarrow> USB_JoystickReport_Input_t \<Rightarrow> globals \<Rightarrow> USB_JoystickReport_Input_t \<times> globals" where
  "sync_position_case h r s =
     (if command_count s > ms_2_count h 4000
      then (r, s\<lparr>command_count := 0, xpos := 0, ypos := 0, state := STOP\<rparr>)
      else
        (let r1 = r\<lparr>LX := STICK_MIN h, LY := STICK_MIN h\<rparr>;
             r2 = (if command_count s = ms_2_count h 1500 \<or> command_count s = ms_2_count h 3000
                   then r1\<lparr>Button := Button r1 OR SWITCH_LCLICK h\<rparr> else r1)
         in (r2, s\<lparr>command_count := command_count s + 1\<rparr>)))"

text \<open>The \<open>MOVE\<close> case: the inner \<open>if\<close> has its own \<open>else\<close>, so the \<open>else if\<close> belongs to the outer one.\<close>

definition move_case ::
  "joystick_h \<Rightarrow> USB_JoystickReport_Input_t \<Rightarrow> globals \<Rightarrow> USB_JoystickReport_Input_t \<times> globals" where
  "move_case h r s =
     (let (r1, s1) =
        (if (xpos s = 0 \<and> ypos s smod 2 = 1) \<or> (xpos s = 319 \<and> ypos s smod 2 = 0)
         then
           (if splat3_lag_correction_count s < 10
            then
              (let s' = s\<lparr>splat3_lag_correction_count := splat3_lag_correction_count s + 1\<rparr>
               in if xpos s' = 0 then (r\<lparr>HAT := HAT_LEFT h\<rparr>, s')
                  else (r\<lparr>HAT := HAT_RIGHT h\<rparr>, s'))
            else (r\<lparr>HAT := HAT_BOTTOM h\<rparr>, s\<lparr>splat3_lag_correction_count := 0\<rparr>))
         else if ypos s smod 2 = 0 then (r\<lparr>HAT := HAT_RIGHT h\<rparr>, s)
         else (r\<lparr>HAT := HAT_LEFT h\<rparr>, s))
      in (r1, s1\<lparr>state := STOP\<rparr>))"

text \<open>The \<open>STOP\<close> case; it reads the bitmap, so it can be undefined.\<close>

definition stop_case ::
  "joystick_h \<Rightarrow> 8 word list \<Rightarrow> USB_JoystickReport_Input_t \<Rightarrow> globals
     \<Rightarrow> (USB_JoystickReport_Input_t \<times> globals) option" where
  "stop_case h image_data r s =
     (case is_black image_data (xpos s) (ypos s) of
        None \<Rightarrow> None
      | Some black \<Rightarrow>
          (let r1 = (if black then r\<lparr>Button := Button r OR SWITCH_A h\<rparr> else r);
               s1 = s\<lparr>state := MOVE\<rparr>;
               s2 = (if ypos s1 > 119 then s1\<lparr>state := DONE\<rparr> else s1)
           in Some (r1, s2)))"

text \<open>The position update after the switch.\<close>

definition position_update :: "joystick_h \<Rightarrow> USB_JoystickReport_Input_t \<Rightarrow> globals \<Rightarrow> globals" where
  "position_update h r s =
     (if state s \<noteq> SYNC_CONTROLLER \<and> state s \<noteq> SYNC_POSITION \<and> state s \<noteq> DONE
      then
        (if HAT r = HAT_RIGHT h then (if xpos s < 319 then s\<lparr>xpos := xpos s + 1\<rparr> else s)
         else if HAT r = HAT_LEFT h then (if xpos s > 0 then s\<lparr>xpos := xpos s - 1\<rparr> else s)
         else if HAT r = HAT_TOP h then s\<lparr>ypos := ypos s - 1\<rparr>
         else if HAT r = HAT_BOTTOM h then s\<lparr>ypos := ypos s + 1\<rparr>
         else s)
      else s)"

text \<open>What follows the switch when a case ends in \<open>break\<close>: the position update and the echo set-up.\<close>

definition after_switch ::
  "joystick_h \<Rightarrow> USB_JoystickReport_Input_t \<times> globals \<Rightarrow> USB_JoystickReport_Input_t \<times> globals" where
  "after_switch h rs =
     (let (r, s) = rs; s1 = position_update h r s
      in (r, s1\<lparr>last_report := r, echoes := ECHOES\<rparr>))"

definition GetNextReport ::
  "joystick_h \<Rightarrow> 8 word list \<Rightarrow> USB_JoystickReport_Input_t \<Rightarrow> globals
     \<Rightarrow> (USB_JoystickReport_Input_t \<times> globals) option" where
  "GetNextReport h image_data ReportData s =
     (let r = prepare_empty h ReportData in
      if echoes s > 0 then Some (last_report s, s\<lparr>echoes := echoes s - 1\<rparr>)
      else
        (case state s of
           SYNC_CONTROLLER \<Rightarrow> Some (after_switch h (sync_controller_case h r s))
         | SYNC_POSITION \<Rightarrow> Some (after_switch h (sync_position_case h r s))
         | MOVE \<Rightarrow> Some (after_switch h (move_case h r s))
         | STOP \<Rightarrow> map_option (after_switch h) (stop_case h image_data r s)
         | DONE \<Rightarrow> Some (r, s)))"

text \<open>
  \<open>HID_Task\<close> calls \<open>GetNextReport\<close> on an uninitialised local each time the host is
  ready for a report. \<open>run\<close> is a number of such calls in a row; \<open>bufs k\<close> is what the
  local holds before call \<open>k\<close>. The result is the globals after the last call.
\<close>

fun run :: "joystick_h \<Rightarrow> 8 word list \<Rightarrow> (nat \<Rightarrow> USB_JoystickReport_Input_t) \<Rightarrow> nat \<Rightarrow> globals
     \<Rightarrow> globals option" where
  "run h image_data bufs 0 s = Some s"
| "run h image_data bufs (Suc n) s =
     (case GetNextReport h image_data (bufs 0) s of
        None \<Rightarrow> None
      | Some (r, s1) \<Rightarrow> run h image_data (\<lambda>k. bufs (Suc k)) n s1)"

subsection \<open>The bitmap layout the spec describes\<close>

text \<open>
  The spec's section 3: the bitmap is packed 8 pixels per byte, row-major, byte index
  \<open>\<lfloor>x/8\<rfloor> + y\<cdot>40\<close>, bit \<open>x mod 8\<close>, bit value 1 meaning ink. This definition follows
  those words, not the macro; \<open>is_black\<close> above is the macro.
\<close>

definition isInk_spec :: "8 word list \<Rightarrow> nat \<Rightarrow> nat \<Rightarrow> bool" where
  "isInk_spec bitmap x y = bit (bitmap ! (x div 8 + y * 40)) (x mod 8)"

subsection \<open>Assumptions on the header, and a concrete header\<close>

text \<open>
  The position update compares the report's pad value with \<open>HAT_RIGHT\<close>, \<open>HAT_LEFT\<close>,
  \<open>HAT_TOP\<close> and \<open>HAT_BOTTOM\<close> in turn, after the switch has set it to one of
  \<open>HAT_CENTER\<close>, \<open>HAT_LEFT\<close>, \<open>HAT_RIGHT\<close> and \<open>HAT_BOTTOM\<close>. What it does depends
  on these five values being different, which the absent header decides. The theorems
  about the cursor assume it.
\<close>

definition header_ok :: "joystick_h \<Rightarrow> bool" where
  "header_ok h = distinct [HAT_RIGHT h, HAT_LEFT h, HAT_TOP h, HAT_BOTTOM h, HAT_CENTER h]"

text \<open>
  A header for closed instances of the theorems: the pad values of the spec's section 6
  (0 centre, 1 up, 3 right, 5 down, 7 left), a polling interval of 8 ms, sticks from 0 to
  255 with 128 as the centre, and two button masks of one bit each.
\<close>

definition example_h :: joystick_h where
  "example_h = \<lparr>POLLING_MS = 8, STICK_MIN = 0, STICK_CENTER = 128,
     HAT_TOP = 1, HAT_RIGHT = 3, HAT_BOTTOM = 5, HAT_LEFT = 7, HAT_CENTER = 0,
     SWITCH_A = 4, SWITCH_LCLICK = 1024\<rparr>"

subsection \<open>Notions used in the statements and proofs below\<close>

text \<open>
  One logical step of the synthesizer is three calls: the call that synthesizes a report
  and the \<open>ECHOES\<close> calls that replay it. A synchronisation phase whose limit is
  \<open>ms_2_count h ms\<close> takes \<open>ms_2_count h ms + 2\<close> logical steps: the counter runs from 0
  to the limit plus one, and the step that finds it above the limit changes the phase.
  \<open>sync_calls h\<close> is the number of calls of the two synchronisation phases together.
\<close>

definition sync_calls :: "joystick_h \<Rightarrow> nat" where
  "sync_calls h = 3 * (nat (ms_2_count h 2000) + 2) + 3 * (nat (ms_2_count h 4000) + 2)"

text \<open>
  \<open>core s\<close> is the part of the globals that a fresh call reads and writes besides the
  echo buffer; \<open>settled s c\<close> says that the core is \<open>c\<close> and the next call is not a
  replay; \<open>reaches h img n s P\<close> says that \<open>n\<close> calls from \<open>s\<close> are all defined and end
  in a state satisfying \<open>P\<close>, whatever the buffers handed to them hold.
\<close>

definition core :: "globals \<Rightarrow> State_t \<times> int \<times> int \<times> int \<times> int" where
  "core s = (state s, xpos s, ypos s, splat3_lag_correction_count s, command_count s)"

definition settled :: "globals \<Rightarrow> State_t \<times> int \<times> int \<times> int \<times> int \<Rightarrow> bool" where
  "settled s c \<longleftrightarrow> core s = c \<and> echoes s \<le> 0"

definition reaches :: "joystick_h \<Rightarrow> 8 word list \<Rightarrow> nat \<Rightarrow> globals \<Rightarrow> (globals \<Rightarrow> bool) \<Rightarrow> bool" where
  "reaches h img n s P \<longleftrightarrow> (\<forall>bufs. \<exists>s'. run h img bufs n s = Some s' \<and> P s')"

text \<open>
  The invariant of the runs from \<open>init\<close>: the cursor stays on the canvas or at \<open>(0, 120)\<close>,
  row 120 is never left in phase \<open>MOVE\<close>, and the counters stay small.
\<close>

definition reach_inv :: "globals \<Rightarrow> bool" where
  "reach_inv s \<longleftrightarrow>
     0 \<le> xpos s \<and> xpos s \<le> 319 \<and> 0 \<le> ypos s \<and> ypos s \<le> 120
     \<and> (ypos s = 120 \<longrightarrow> xpos s = 0 \<and> state s \<noteq> MOVE)
     \<and> 0 \<le> echoes s \<and> echoes s \<le> 2
     \<and> 0 \<le> splat3_lag_correction_count s \<and> splat3_lag_correction_count s \<le> 10
     \<and> 0 \<le> command_count s \<and> command_count s \<le> 251"

section \<open>Properties\<close>

subsection \<open>The bitmap query\<close>

lemma sdiv_nonneg: "0 \<le> (a::int) \<Longrightarrow> 0 < b \<Longrightarrow> a sdiv b = a div b"
  by (simp add: signed_divide_int_def sgn_if)

lemma smod_nonneg: "0 \<le> (a::int) \<Longrightarrow> 0 < b \<Longrightarrow> a smod b = a mod b"
  by (simp add: signed_modulo_int_def sgn_if)

lemma byte_test: "((uint (b::8 word) AND 2 ^ n) \<noteq> 0) = bit b n"
  by (auto simp add: and_exp_eq_0_iff_not_bit bit_uint_iff dest: bit_imp_le_length)

lemma is_black_bit:
  assumes "length image_data = 0x12c1" "0 \<le> x" "x \<le> 319" "0 \<le> y" "y \<le> 119"
  shows "is_black image_data x y = Some (isInk_spec image_data (nat x) (nat y))"
proof -
  have d: "x sdiv 8 = x div 8" and m: "x smod 8 = x mod 8"
    using assms by (simp_all add: sdiv_nonneg smod_nonneg)
  have lo: "0 \<le> x div 8 + y * 40" using assms by simp
  have "x div 8 \<le> 39" using assms by simp
  moreover have "y * 40 \<le> 119 * 40" using assms by simp
  ultimately have hi: "x div 8 + y * 40 < 4801" by linarith
  have n: "nat (x div 8 + y * 40) = nat x div 8 + nat y * 40"
    using assms by (simp add: nat_add_distrib nat_mult_distrib nat_div_distrib)
  have b: "nat (x mod 8) = nat x mod 8"
    using assms by (simp add: nat_mod_distrib)
  show ?thesis
    using lo hi assms(1) byte_test [of "image_data ! (nat x div 8 + nat y * 40)" "nat x mod 8"]
    by (simp add: is_black_def pgm_read_byte_def d m n b isInk_spec_def)
qed

lemma is_black_last:
  assumes "length image_data = 0x12c1"
  shows "\<exists>b. is_black image_data 0 120 = Some b"
  using assms by (simp add: is_black_def pgm_read_byte_def)

lemma is_black_example:
  "is_black ((replicate 4801 0)[41 := 4]) 10 1 = Some True"
  by (simp add: is_black_def pgm_read_byte_def sdiv_nonneg smod_nonneg)

subsection \<open>Single calls\<close>

lemma prepare_empty_eq:
  "prepare_empty h b =
     \<lparr>Button = 0, HAT = HAT_CENTER h, LX = STICK_CENTER h, LY = STICK_CENTER h,
      RX = STICK_CENTER h, RY = STICK_CENTER h, VendorSpec = 0\<rparr>"
  by (cases b) (simp add: prepare_empty_def)

lemma GetNextReport_echo:
  "0 < echoes s \<Longrightarrow> GetNextReport h img b s = Some (last_report s, s\<lparr>echoes := echoes s - 1\<rparr>)"
  by (simp add: GetNextReport_def)

lemma GetNextReport_done:
  "\<not> 0 < echoes s \<Longrightarrow> state s = DONE \<Longrightarrow> GetNextReport h img b s = Some (prepare_empty h b, s)"
  by (simp add: GetNextReport_def)

lemma after_switch_echo:
  "after_switch h (r, s) = (r', s') \<Longrightarrow> r' = r \<and> last_report s' = r \<and> echoes s' = ECHOES"
  by (auto simp: after_switch_def Let_def)

lemma GetNextReport_fresh_echo:
  assumes "\<not> 0 < echoes s" "state s \<noteq> DONE" "GetNextReport h img b s = Some (r, s1)"
  shows "last_report s1 = r \<and> echoes s1 = ECHOES"
proof (cases "state s")
  case STOP
  with assms obtain r0 s0 where "after_switch h (r0, s0) = (r, s1)"
    by (auto simp: GetNextReport_def)
  then show ?thesis using after_switch_echo by blast
next
  case DONE with assms show ?thesis by simp
next
  case SYNC_CONTROLLER
  with assms obtain r0 s0 where "after_switch h (r0, s0) = (r, s1)"
    by (cases "sync_controller_case h (prepare_empty h b) s") (auto simp: GetNextReport_def)
  then show ?thesis using after_switch_echo by blast
next
  case SYNC_POSITION
  with assms obtain r0 s0 where "after_switch h (r0, s0) = (r, s1)"
    by (cases "sync_position_case h (prepare_empty h b) s") (auto simp: GetNextReport_def)
  then show ?thesis using after_switch_echo by blast
next
  case MOVE
  with assms obtain r0 s0 where "after_switch h (r0, s0) = (r, s1)"
    by (cases "move_case h (prepare_empty h b) s") (auto simp: GetNextReport_def)
  then show ?thesis using after_switch_echo by blast
qed

lemma fresh_then_echoes:
  assumes "echoes s \<le> 0" "state s \<noteq> DONE" "GetNextReport h img b0 s = Some (r, s1)"
  shows "echoes s1 = ECHOES \<and> ECHOES = 2
    \<and> GetNextReport h img b1 s1 = Some (r, s1\<lparr>echoes := 1\<rparr>)
    \<and> GetNextReport h img b2 (s1\<lparr>echoes := 1\<rparr>) = Some (r, s1\<lparr>echoes := 0\<rparr>)
    \<and> echoes (s1\<lparr>echoes := 0\<rparr>) \<le> 0"
proof -
  have "\<not> 0 < echoes s" using assms(1) by simp
  from GetNextReport_fresh_echo [OF this assms(2,3)]
  have e: "last_report s1 = r" "echoes s1 = 2"
    by (simp_all add: ECHOES_def)
  show ?thesis using e by (simp add: GetNextReport_echo ECHOES_def)
qed

lemma stop_last_exact:
  assumes "state s = STOP" "echoes s \<le> 0" "119 < ypos s"
    "is_black img (xpos s) (ypos s) = Some black"
  shows "GetNextReport h img b s =
    Some ((prepare_empty h b)\<lparr>Button := (if black then SWITCH_A h else 0)\<rparr>,
      s\<lparr>state := DONE,
        last_report := (prepare_empty h b)\<lparr>Button := (if black then SWITCH_A h else 0)\<rparr>,
        echoes := 2\<rparr>)"
  using assms
  by (simp add: GetNextReport_def stop_case_def after_switch_def position_update_def
      prepare_empty_eq ECHOES_def Let_def)

lemma run_done:
  "state s = DONE \<Longrightarrow>
   \<exists>s2. run h img bufs n s = Some s2 \<and> state s2 = DONE \<and> xpos s2 = xpos s \<and> ypos s2 = ypos s"
proof (induction n arbitrary: s bufs)
  case 0
  then show ?case by simp
next
  case (Suc n)
  show ?case
  proof (cases "0 < echoes s")
    case True
    have "state (s\<lparr>echoes := echoes s - 1\<rparr>) = DONE" using Suc.prems by simp
    from Suc.IH [OF this, of "\<lambda>k. bufs (Suc k)"] show ?thesis
      using True by (simp add: GetNextReport_echo)
  next
    case False
    from Suc.IH [OF Suc.prems, of "\<lambda>k. bufs (Suc k)"] show ?thesis
      using False Suc.prems by (simp add: GetNextReport_done)
  qed
qed

lemma header_okD:
  assumes "header_ok h"
  shows "HAT_LEFT h \<noteq> HAT_RIGHT h" "HAT_BOTTOM h \<noteq> HAT_RIGHT h" "HAT_BOTTOM h \<noteq> HAT_LEFT h"
    "HAT_BOTTOM h \<noteq> HAT_TOP h" "HAT_CENTER h \<noteq> HAT_RIGHT h" "HAT_CENTER h \<noteq> HAT_LEFT h"
    "HAT_CENTER h \<noteq> HAT_TOP h" "HAT_CENTER h \<noteq> HAT_BOTTOM h"
  using assms by (auto simp: header_ok_def)

lemma smod2:
  assumes "0 \<le> (y::int)"
  shows "(y smod 2 = 0) = even y" "(y smod 2 = 1) = odd y"
  using assms by (simp_all add: smod_nonneg even_iff_mod_2_eq_zero odd_iff_mod_2_eq_one)

subsection \<open>Composing calls\<close>

lemma run_add:
  "run h img bufs (m + n) s =
     (case run h img bufs m s of None \<Rightarrow> None | Some s1 \<Rightarrow> run h img (\<lambda>k. bufs (m + k)) n s1)"
proof (induction m arbitrary: bufs s)
  case 0
  show ?case by simp
next
  case (Suc m)
  show ?case
    by (simp add: Suc.IH split: option.splits)
qed

lemma reaches_0: "P s \<Longrightarrow> reaches h img 0 s P"
  by (simp add: reaches_def)

lemma reaches_trans:
  assumes "reaches h img m s P" and "\<And>s'. P s' \<Longrightarrow> reaches h img n s' Q"
  shows "reaches h img (m + n) s Q"
  unfolding reaches_def
proof
  fix bufs :: "nat \<Rightarrow> USB_JoystickReport_Input_t"
  from assms(1) obtain s1 where s1: "run h img bufs m s = Some s1" "P s1"
    unfolding reaches_def by blast
  from assms(2) [OF s1(2)] obtain s2 where "run h img (\<lambda>k. bufs (m + k)) n s1 = Some s2" "Q s2"
    unfolding reaches_def by blast
  with s1 show "\<exists>s'. run h img bufs (m + n) s = Some s' \<and> Q s'"
    by (simp add: run_add)
qed

lemma reaches_mono:
  "reaches h img n s P \<Longrightarrow> (\<And>s'. P s' \<Longrightarrow> Q s') \<Longrightarrow> reaches h img n s Q"
  unfolding reaches_def by blast

lemma core_echoes [simp]: "core (s\<lparr>echoes := e\<rparr>) = core s"
  by (simp add: core_def)

lemma tick:
  assumes "settled s c" "fst c \<noteq> DONE"
    and "\<And>b. \<exists>r s1. GetNextReport h img b s = Some (r, s1) \<and> core s1 = c'"
  shows "reaches h img 3 s (\<lambda>s'. settled s' c')"
  unfolding reaches_def
proof
  fix bufs :: "nat \<Rightarrow> USB_JoystickReport_Input_t"
  have e: "echoes s \<le> 0" and d: "state s \<noteq> DONE"
    using assms(1,2) by (auto simp: settled_def core_def)
  from assms(3) obtain r s1 where f: "GetNextReport h img (bufs 0) s = Some (r, s1)" "core s1 = c'"
    by blast
  from fresh_then_echoes [OF e d f(1), where ?b1.0 = "bufs (Suc 0)" and ?b2.0 = "bufs (Suc (Suc 0))"]
  have "run h img bufs (Suc (Suc (Suc 0))) s = Some (s1\<lparr>echoes := 0\<rparr>)"
    using f(1) by simp
  moreover have "settled (s1\<lparr>echoes := 0\<rparr>) c'"
    using f(2) by (simp add: settled_def)
  ultimately show "\<exists>s'. run h img bufs 3 s = Some s' \<and> settled s' c'"
    by (simp add: numeral_3_eq_3)
qed

lemma stop_core:
  assumes "header_ok h" "settled s (STOP, x, y, l, c)" "y \<le> 119"
    "is_black img x y = Some black"
  shows "\<exists>r s1. GetNextReport h img b s = Some (r, s1) \<and> core s1 = (MOVE, x, y, l, c)"
  using assms
  by (simp add: settled_def core_def GetNextReport_def stop_case_def after_switch_def
      position_update_def header_okD prepare_empty_eq Let_def)

lemma move_core:
  assumes "header_ok h" "settled s (MOVE, x, y, l, c)"
  shows "\<exists>r s1. GetNextReport h img b s = Some (r, s1) \<and>
    (r, core s1) =
      (if (x = 0 \<and> y smod 2 = 1) \<or> (x = 319 \<and> y smod 2 = 0) then
         (if l < 10 then
            (if x = 0 then ((prepare_empty h b)\<lparr>HAT := HAT_LEFT h\<rparr>, (STOP, x, y, l + 1, c))
             else ((prepare_empty h b)\<lparr>HAT := HAT_RIGHT h\<rparr>, (STOP, x, y, l + 1, c)))
          else ((prepare_empty h b)\<lparr>HAT := HAT_BOTTOM h\<rparr>, (STOP, x, y + 1, 0, c)))
       else if y smod 2 = 0 then
         ((prepare_empty h b)\<lparr>HAT := HAT_RIGHT h\<rparr>, (STOP, (if x < 319 then x + 1 else x), y, l, c))
       else ((prepare_empty h b)\<lparr>HAT := HAT_LEFT h\<rparr>, (STOP, (if x > 0 then x - 1 else x), y, l, c)))"
  using assms
  by (simp add: settled_def core_def GetNextReport_def move_case_def after_switch_def
      position_update_def header_okD prepare_empty_eq Let_def)

lemma stop_tick:
  assumes "header_ok h" "length img = 0x12c1" "settled s (STOP, x, y, l, c)"
    "0 \<le> x" "x \<le> 319" "0 \<le> y" "y \<le> 119"
  shows "reaches h img 3 s (\<lambda>s'. settled s' (MOVE, x, y, l, c))"
proof (rule tick [OF assms(3)])
  show "fst (STOP, x, y, l, c) \<noteq> DONE" by simp
next
  fix b
  show "\<exists>r s1. GetNextReport h img b s = Some (r, s1) \<and> core s1 = (MOVE, x, y, l, c)"
    using stop_core [OF assms(1,3,7) is_black_bit [OF assms(2,4,5,6,7)]] .
qed

lemma move_tick_right:
  assumes "header_ok h" "settled s (MOVE, x, y, l, c)" "0 \<le> y" "even y" "x < 319"
  shows "reaches h img 3 s (\<lambda>s'. settled s' (STOP, x + 1, y, l, c))"
proof (rule tick [OF assms(2)])
  show "fst (MOVE, x, y, l, c) \<noteq> DONE" by simp
next
  fix b
  show "\<exists>r s1. GetNextReport h img b s = Some (r, s1) \<and> core s1 = (STOP, x + 1, y, l, c)"
    using move_core [OF assms(1,2), of img b] assms(4,5) smod2 [OF assms(3)] by auto
qed

lemma move_tick_left:
  assumes "header_ok h" "settled s (MOVE, x, y, l, c)" "0 \<le> y" "odd y" "0 < x"
  shows "reaches h img 3 s (\<lambda>s'. settled s' (STOP, x - 1, y, l, c))"
proof (rule tick [OF assms(2)])
  show "fst (MOVE, x, y, l, c) \<noteq> DONE" by simp
next
  fix b
  show "\<exists>r s1. GetNextReport h img b s = Some (r, s1) \<and> core s1 = (STOP, x - 1, y, l, c)"
    using move_core [OF assms(1,2), of img b] assms(4,5) smod2 [OF assms(3)] by auto
qed

lemma move_tick_lag:
  assumes "header_ok h" "settled s (MOVE, x, y, l, c)" "0 \<le> y"
    "(x = 0 \<and> odd y) \<or> (x = 319 \<and> even y)" "l < 10"
  shows "reaches h img 3 s (\<lambda>s'. settled s' (STOP, x, y, l + 1, c))"
proof (rule tick [OF assms(2)])
  show "fst (MOVE, x, y, l, c) \<noteq> DONE" by simp
next
  fix b
  show "\<exists>r s1. GetNextReport h img b s = Some (r, s1) \<and> core s1 = (STOP, x, y, l + 1, c)"
    using move_core [OF assms(1,2), of img b] assms(4,5) smod2 [OF assms(3)] by auto
qed

lemma move_tick_down:
  assumes "header_ok h" "settled s (MOVE, x, y, l, c)" "0 \<le> y"
    "(x = 0 \<and> odd y) \<or> (x = 319 \<and> even y)" "\<not> l < 10"
  shows "reaches h img 3 s (\<lambda>s'. settled s' (STOP, x, y + 1, 0, c))"
proof (rule tick [OF assms(2)])
  show "fst (MOVE, x, y, l, c) \<noteq> DONE" by simp
next
  fix b
  show "\<exists>r s1. GetNextReport h img b s = Some (r, s1) \<and> core s1 = (STOP, x, y + 1, 0, c)"
    using move_core [OF assms(1,2), of img b] assms(4,5) smod2 [OF assms(3)] by auto
qed

subsection \<open>One row after another\<close>

lemma sweep_right:
  assumes "header_ok h" "length img = 0x12c1" "0 \<le> y" "y \<le> 119" "even y" "0 \<le> x"
  shows "settled s (STOP, x, y, l, c) \<Longrightarrow> x + int j \<le> 319 \<Longrightarrow>
    reaches h img (6 * j) s (\<lambda>s'. settled s' (STOP, x + int j, y, l, c))"
proof (induction j)
  case 0
  then show ?case by (simp add: reaches_0)
next
  case (Suc j)
  have a: "reaches h img (6 * j) s (\<lambda>s'. settled s' (STOP, x + int j, y, l, c))"
    using Suc by simp
  have b: "reaches h img (3 + 3) s' (\<lambda>s'. settled s' (STOP, x + int j + 1, y, l, c))"
    if "settled s' (STOP, x + int j, y, l, c)" for s'
  proof (rule reaches_trans)
    show "reaches h img 3 s' (\<lambda>s'. settled s' (MOVE, x + int j, y, l, c))"
      using stop_tick [OF assms(1,2) that] assms(3,4,6) Suc.prems(2) by simp
  next
    fix s''
    assume "settled s'' (MOVE, x + int j, y, l, c)"
    from move_tick_right [OF assms(1) this assms(3,5)] Suc.prems(2)
    show "reaches h img 3 s'' (\<lambda>s'. settled s' (STOP, x + int j + 1, y, l, c))" by simp
  qed
  have "reaches h img (6 * j + (3 + 3)) s (\<lambda>s'. settled s' (STOP, x + int j + 1, y, l, c))"
    using reaches_trans [OF a b] .
  then show ?case by (simp add: algebra_simps)
qed

lemma sweep_left:
  assumes "header_ok h" "length img = 0x12c1" "0 \<le> y" "y \<le> 119" "odd y" "x \<le> 319"
  shows "settled s (STOP, x, y, l, c) \<Longrightarrow> int j \<le> x \<Longrightarrow>
    reaches h img (6 * j) s (\<lambda>s'. settled s' (STOP, x - int j, y, l, c))"
proof (induction j)
  case 0
  then show ?case by (simp add: reaches_0)
next
  case (Suc j)
  have a: "reaches h img (6 * j) s (\<lambda>s'. settled s' (STOP, x - int j, y, l, c))"
    using Suc by simp
  have b: "reaches h img (3 + 3) s' (\<lambda>s'. settled s' (STOP, x - int j - 1, y, l, c))"
    if "settled s' (STOP, x - int j, y, l, c)" for s'
  proof (rule reaches_trans)
    show "reaches h img 3 s' (\<lambda>s'. settled s' (MOVE, x - int j, y, l, c))"
      using stop_tick [OF assms(1,2) that] assms(3,4,6) Suc.prems(2) by simp
  next
    fix s''
    assume "settled s'' (MOVE, x - int j, y, l, c)"
    from move_tick_left [OF assms(1) this assms(3,5)] Suc.prems(2)
    show "reaches h img 3 s'' (\<lambda>s'. settled s' (STOP, x - int j - 1, y, l, c))" by simp
  qed
  have "reaches h img (6 * j + (3 + 3)) s (\<lambda>s'. settled s' (STOP, x - int j - 1, y, l, c))"
    using reaches_trans [OF a b] .
  then show ?case by (simp add: algebra_simps)
qed

lemma lag_window:
  assumes "header_ok h" "length img = 0x12c1" "0 \<le> y" "y \<le> 119"
    "(x = 0 \<and> odd y) \<or> (x = 319 \<and> even y)"
  shows "settled s (STOP, x, y, l, c) \<Longrightarrow> l + int k \<le> 10 \<Longrightarrow>
    reaches h img (6 * k) s (\<lambda>s'. settled s' (STOP, x, y, l + int k, c))"
proof (induction k)
  case 0
  then show ?case by (simp add: reaches_0)
next
  case (Suc k)
  have a: "reaches h img (6 * k) s (\<lambda>s'. settled s' (STOP, x, y, l + int k, c))"
    using Suc by simp
  have b: "reaches h img (3 + 3) s' (\<lambda>s'. settled s' (STOP, x, y, l + int k + 1, c))"
    if "settled s' (STOP, x, y, l + int k, c)" for s'
  proof (rule reaches_trans)
    show "reaches h img 3 s' (\<lambda>s'. settled s' (MOVE, x, y, l + int k, c))"
      using stop_tick [OF assms(1,2) that] assms(3,4,5) by auto
  next
    fix s''
    assume "settled s'' (MOVE, x, y, l + int k, c)"
    from move_tick_lag [OF assms(1) this assms(3,5)] Suc.prems(2)
    show "reaches h img 3 s'' (\<lambda>s'. settled s' (STOP, x, y, l + int k + 1, c))" by simp
  qed
  have "reaches h img (6 * k + (3 + 3)) s (\<lambda>s'. settled s' (STOP, x, y, l + int k + 1, c))"
    using reaches_trans [OF a b] .
  then show ?case by (simp add: algebra_simps)
qed

lemma down_pair:
  assumes "header_ok h" "length img = 0x12c1" "0 \<le> y" "y \<le> 119"
    "(x = 0 \<and> odd y) \<or> (x = 319 \<and> even y)" "settled s (STOP, x, y, l, c)" "\<not> l < 10"
  shows "reaches h img (3 + 3) s (\<lambda>s'. settled s' (STOP, x, y + 1, 0, c))"
proof (rule reaches_trans)
  show "reaches h img 3 s (\<lambda>s'. settled s' (MOVE, x, y, l, c))"
    using stop_tick [OF assms(1,2,6)] assms(3,4,5) by auto
next
  fix s''
  assume "settled s'' (MOVE, x, y, l, c)"
  from move_tick_down [OF assms(1) this assms(3,5,7)]
  show "reaches h img 3 s'' (\<lambda>s'. settled s' (STOP, x, y + 1, 0, c))" .
qed

lemma row_even:
  assumes "header_ok h" "length img = 0x12c1" "0 \<le> y" "y \<le> 119" "even y"
    "settled s (STOP, 0, y, 0, c)"
  shows "reaches h img 1980 s (\<lambda>s'. settled s' (STOP, 319, y + 1, 0, c))"
proof -
  have a: "reaches h img (6 * 319) s (\<lambda>s'. settled s' (STOP, 319, y, 0, c))"
    using sweep_right [OF assms(1-5) _ assms(6), of 319] by simp
  have b: "reaches h img (6 * 10) s' (\<lambda>s'. settled s' (STOP, 319, y, 10, c))"
    if "settled s' (STOP, 319, y, 0, c)" for s'
    using lag_window [OF assms(1-4) _ that, of 10] assms(5) by simp
  have c: "reaches h img (3 + 3) s' (\<lambda>s'. settled s' (STOP, 319, y + 1, 0, c))"
    if "settled s' (STOP, 319, y, 10, c)" for s'
    using down_pair [OF assms(1-4) _ that] assms(5) by simp
  have "reaches h img (6 * 319 + (6 * 10 + (3 + 3))) s (\<lambda>s'. settled s' (STOP, 319, y + 1, 0, c))"
    by (rule reaches_trans [OF a]) (rule reaches_trans [OF b c])
  then show ?thesis by simp
qed

lemma row_odd:
  assumes "header_ok h" "length img = 0x12c1" "0 \<le> y" "y \<le> 119" "odd y"
    "settled s (STOP, 319, y, 0, c)"
  shows "reaches h img 1980 s (\<lambda>s'. settled s' (STOP, 0, y + 1, 0, c))"
proof -
  have a: "reaches h img (6 * 319) s (\<lambda>s'. settled s' (STOP, 0, y, 0, c))"
    using sweep_left [OF assms(1-5) _ assms(6), of 319] by simp
  have b: "reaches h img (6 * 10) s' (\<lambda>s'. settled s' (STOP, 0, y, 10, c))"
    if "settled s' (STOP, 0, y, 0, c)" for s'
    using lag_window [OF assms(1-4) _ that, of 10] assms(5) by simp
  have c: "reaches h img (3 + 3) s' (\<lambda>s'. settled s' (STOP, 0, y + 1, 0, c))"
    if "settled s' (STOP, 0, y, 10, c)" for s'
    using down_pair [OF assms(1-4) _ that] assms(5) by simp
  have "reaches h img (6 * 319 + (6 * 10 + (3 + 3))) s (\<lambda>s'. settled s' (STOP, 0, y + 1, 0, c))"
    by (rule reaches_trans [OF a]) (rule reaches_trans [OF b c])
  then show ?thesis by simp
qed

lemma rows:
  assumes "header_ok h" "length img = 0x12c1" "settled s (STOP, 0, 0, 0, c)"
  shows "n \<le> 120 \<Longrightarrow>
    reaches h img (1980 * n) s (\<lambda>s'. settled s' (STOP, if even n then 0 else 319, int n, 0, c))"
proof (induction n)
  case 0
  show ?case using assms(3) by (simp add: reaches_0)
next
  case (Suc n)
  have a: "reaches h img (1980 * n) s
      (\<lambda>s'. settled s' (STOP, if even n then 0 else 319, int n, 0, c))"
    using Suc by simp
  have b: "reaches h img 1980 s'
      (\<lambda>s'. settled s' (STOP, if even (Suc n) then 0 else 319, int (Suc n), 0, c))"
    if "settled s' (STOP, if even n then 0 else 319, int n, 0, c)" for s'
  proof (cases "even n")
    case True
    then have "settled s' (STOP, 0, int n, 0, c)" using that by simp
    from row_even [OF assms(1,2) _ _ _ this] True Suc.prems
    show ?thesis by (simp add: add.commute)
  next
    case False
    then have "settled s' (STOP, 319, int n, 0, c)" using that by simp
    from row_odd [OF assms(1,2) _ _ _ this] False Suc.prems
    show ?thesis by (simp add: add.commute)
  qed
  have "reaches h img (1980 * n + 1980) s
      (\<lambda>s'. settled s' (STOP, if even (Suc n) then 0 else 319, int (Suc n), 0, c))"
    using reaches_trans [OF a b] .
  then show ?case by (simp add: algebra_simps)
qed

lemma move_window:
  assumes "header_ok h" "length img = 0x12c1" "0 \<le> y" "y \<le> 119"
    "(x = 0 \<and> odd y) \<or> (x = 319 \<and> even y)" "settled s (MOVE, x, y, 0, c)" "k \<le> 10"
  shows "reaches h img (6 * k) s (\<lambda>s'. settled s' (MOVE, x, y, int k, c))"
proof (cases k)
  case 0
  then show ?thesis using assms(6) by (simp add: reaches_0)
next
  case (Suc k')
  have a: "reaches h img 3 s (\<lambda>s'. settled s' (STOP, x, y, 1, c))"
    using move_tick_lag [OF assms(1,6,3,5)] by simp
  have b: "reaches h img (6 * k') s' (\<lambda>s'. settled s' (STOP, x, y, 1 + int k', c))"
    if "settled s' (STOP, x, y, 1, c)" for s'
    using lag_window [OF assms(1-5) that, of k'] assms(7) Suc by simp
  have c: "reaches h img 3 s' (\<lambda>s'. settled s' (MOVE, x, y, 1 + int k', c))"
    if "settled s' (STOP, x, y, 1 + int k', c)" for s'
    using stop_tick [OF assms(1,2) that] assms(3,4,5) by auto
  have "reaches h img (3 + (6 * k' + 3)) s (\<lambda>s'. settled s' (MOVE, x, y, 1 + int k', c))"
    by (rule reaches_trans [OF a]) (rule reaches_trans [OF b c])
  then show ?thesis using Suc by (simp add: algebra_simps)
qed

subsection \<open>The synchronisation phases\<close>

lemma divisor_ge_8: "8 \<le> max_macro p 8 sdiv 8 * 8"
proof -
  have "8 \<le> max_macro p 8" by (simp add: max_macro_def)
  then have "1 \<le> max_macro p 8 div 8" by simp
  moreover have "max_macro p 8 sdiv 8 = max_macro p 8 div 8"
    using \<open>8 \<le> max_macro p 8\<close> by (simp add: sdiv_nonneg)
  ultimately show ?thesis by simp
qed

lemma ms_2_count_eq:
  assumes "0 \<le> ms"
  shows "ms_2_count h ms = ms div 2 div (max_macro (POLLING_MS h) 8 sdiv 8 * 8)"
proof -
  have "ms sdiv 2 = ms div 2" using assms by (simp add: sdiv_nonneg)
  moreover have "0 \<le> ms div 2" using assms by simp
  ultimately show ?thesis
    using divisor_ge_8 [of "POLLING_MS h"] by (simp add: ms_2_count_def ECHOES_def sdiv_nonneg)
qed

lemma ms_2_count_nonneg: "0 \<le> ms \<Longrightarrow> 0 \<le> ms_2_count h ms"
  using divisor_ge_8 [of "POLLING_MS h"] by (simp add: ms_2_count_eq pos_imp_zdiv_nonneg_iff)

lemma ms_2_count_mono: "0 \<le> a \<Longrightarrow> a \<le> b \<Longrightarrow> ms_2_count h a \<le> ms_2_count h b"
  using divisor_ge_8 [of "POLLING_MS h"] by (simp add: ms_2_count_eq zdiv_mono1)

lemma ms_2_count_le: "0 \<le> ms \<Longrightarrow> ms_2_count h ms \<le> ms div 2 div 8"
proof -
  assume a: "0 \<le> ms"
  then have "0 \<le> ms div 2" by simp
  then show ?thesis
    using zdiv_mono2 [of "ms div 2" 8 "max_macro (POLLING_MS h) 8 sdiv 8 * 8"]
      divisor_ge_8 [of "POLLING_MS h"] a by (simp add: ms_2_count_eq)
qed

lemma checkpoints_ordered:
  "0 \<le> ms_2_count h 1500 \<and> ms_2_count h 1500 \<le> ms_2_count h 3000
   \<and> ms_2_count h 3000 \<le> ms_2_count h 4000"
  by (simp add: ms_2_count_nonneg ms_2_count_mono)

lemma checkpoints_distinct:
  assumes "POLLING_MS h < 1504"
  shows "ms_2_count h 1500 < ms_2_count h 3000"
proof -
  define D where "D = max_macro (POLLING_MS h) 8 sdiv 8 * 8"
  have d8: "8 \<le> D" unfolding D_def by (rule divisor_ge_8)
  have "max_macro (POLLING_MS h) 8 \<le> 1503" using assms by (simp add: max_macro_def)
  moreover have "0 \<le> max_macro (POLLING_MS h) 8" by (simp add: max_macro_def)
  ultimately have "max_macro (POLLING_MS h) 8 sdiv 8 \<le> 187"
    by (simp add: sdiv_nonneg)
  then have dle: "D \<le> 1500" unfolding D_def by simp
  have e: "ms_2_count h 1500 = 750 div D" "ms_2_count h 3000 = 1500 div D"
    by (simp_all add: ms_2_count_eq D_def)
  show ?thesis
  proof (cases "D \<le> 750")
    case True
    then have "(750 + D) div D \<le> 1500 div D" using d8 by (intro zdiv_mono1) simp_all
    moreover have "(750 + D) div D = 750 div D + 1"
      using d8 div_add_self2 [of D 750] by linarith
    ultimately show ?thesis by (simp add: e)
  next
    case False
    then have "750 div D = 0" using d8 by simp
    moreover have "D div D \<le> 1500 div D" using d8 dle by (intro zdiv_mono1) simp_all
    then have "1 \<le> 1500 div D" using d8 by simp
    ultimately show ?thesis by (simp add: e)
  qed
qed

lemma sync_controller_core:
  assumes "settled s (SYNC_CONTROLLER, x, y, l, c)"
  shows "\<exists>r s1. GetNextReport h img b s = Some (r, s1) \<and>
    core s1 = (if c > ms_2_count h 2000 then (SYNC_POSITION, x, y, l, 0)
               else (SYNC_CONTROLLER, x, y, l, c + 1))"
  using assms
  by (simp add: settled_def core_def GetNextReport_def sync_controller_case_def after_switch_def
      position_update_def Let_def)

lemma sync_position_core:
  assumes "header_ok h" "settled s (SYNC_POSITION, x, y, l, c)"
  shows "\<exists>r s1. GetNextReport h img b s = Some (r, s1) \<and>
    (r, core s1) =
      (if c > ms_2_count h 4000 then (prepare_empty h b, (STOP, 0, 0, l, 0))
       else ((prepare_empty h b)\<lparr>LX := STICK_MIN h, LY := STICK_MIN h,
               Button := (if c = ms_2_count h 1500 \<or> c = ms_2_count h 3000
                          then SWITCH_LCLICK h else 0)\<rparr>,
             (SYNC_POSITION, x, y, l, c + 1)))"
  using assms
  by (simp add: settled_def core_def GetNextReport_def sync_position_case_def after_switch_def
      position_update_def header_okD prepare_empty_eq Let_def)

lemma sync_controller_ticks:
  shows "settled s (SYNC_CONTROLLER, x, y, l, c) \<Longrightarrow> c + int j \<le> ms_2_count h 2000 + 1 \<Longrightarrow>
    reaches h img (3 * j) s (\<lambda>s'. settled s' (SYNC_CONTROLLER, x, y, l, c + int j))"
proof (induction j)
  case 0
  then show ?case by (simp add: reaches_0)
next
  case (Suc j)
  have a: "reaches h img (3 * j) s (\<lambda>s'. settled s' (SYNC_CONTROLLER, x, y, l, c + int j))"
    using Suc by simp
  have b: "reaches h img 3 s' (\<lambda>s'. settled s' (SYNC_CONTROLLER, x, y, l, c + int j + 1))"
    if t: "settled s' (SYNC_CONTROLLER, x, y, l, c + int j)" for s'
  proof (rule tick [OF t])
    show "fst (SYNC_CONTROLLER, x, y, l, c + int j) \<noteq> DONE" by simp
  next
    fix b
    show "\<exists>r s1. GetNextReport h img b s' = Some (r, s1) \<and>
        core s1 = (SYNC_CONTROLLER, x, y, l, c + int j + 1)"
      using sync_controller_core [OF t, of h img b] Suc.prems(2) by simp
  qed
  have "reaches h img (3 * j + 3) s (\<lambda>s'. settled s' (SYNC_CONTROLLER, x, y, l, c + int j + 1))"
    using reaches_trans [OF a b] .
  then show ?case by (simp add: algebra_simps)
qed

lemma sync_controller_exit:
  assumes t: "settled s (SYNC_CONTROLLER, x, y, l, c)" and "c > ms_2_count h 2000"
  shows "reaches h img 3 s (\<lambda>s'. settled s' (SYNC_POSITION, x, y, l, 0))"
proof (rule tick [OF t])
  show "fst (SYNC_CONTROLLER, x, y, l, c) \<noteq> DONE" by simp
next
  fix b
  show "\<exists>r s1. GetNextReport h img b s = Some (r, s1) \<and> core s1 = (SYNC_POSITION, x, y, l, 0)"
    using sync_controller_core [OF t, of h img b] assms(2) by simp
qed

lemma sync_position_ticks:
  assumes "header_ok h"
  shows "settled s (SYNC_POSITION, x, y, l, c) \<Longrightarrow> c + int j \<le> ms_2_count h 4000 + 1 \<Longrightarrow>
    reaches h img (3 * j) s (\<lambda>s'. settled s' (SYNC_POSITION, x, y, l, c + int j))"
proof (induction j)
  case 0
  then show ?case by (simp add: reaches_0)
next
  case (Suc j)
  have a: "reaches h img (3 * j) s (\<lambda>s'. settled s' (SYNC_POSITION, x, y, l, c + int j))"
    using Suc by simp
  have b: "reaches h img 3 s' (\<lambda>s'. settled s' (SYNC_POSITION, x, y, l, c + int j + 1))"
    if t: "settled s' (SYNC_POSITION, x, y, l, c + int j)" for s'
  proof (rule tick [OF t])
    show "fst (SYNC_POSITION, x, y, l, c + int j) \<noteq> DONE" by simp
  next
    fix b
    show "\<exists>r s1. GetNextReport h img b s' = Some (r, s1) \<and>
        core s1 = (SYNC_POSITION, x, y, l, c + int j + 1)"
      using sync_position_core [OF assms t, of img b] Suc.prems(2) by auto
  qed
  have "reaches h img (3 * j + 3) s (\<lambda>s'. settled s' (SYNC_POSITION, x, y, l, c + int j + 1))"
    using reaches_trans [OF a b] .
  then show ?case by (simp add: algebra_simps)
qed

lemma sync_position_exit:
  assumes "header_ok h" and t: "settled s (SYNC_POSITION, x, y, l, c)" and "c > ms_2_count h 4000"
  shows "reaches h img 3 s (\<lambda>s'. settled s' (STOP, 0, 0, l, 0))"
proof (rule tick [OF t])
  show "fst (SYNC_POSITION, x, y, l, c) \<noteq> DONE" by simp
next
  fix b
  show "\<exists>r s1. GetNextReport h img b s = Some (r, s1) \<and> core s1 = (STOP, 0, 0, l, 0)"
    using sync_position_core [OF assms(1) t, of img b] assms(3) by auto
qed

lemma sync_position_phase:
  assumes "header_ok h" and t: "settled s (SYNC_POSITION, x, y, l, 0)"
  shows "reaches h img (3 * (nat (ms_2_count h 4000) + 2)) s (\<lambda>s'. settled s' (STOP, 0, 0, l, 0))"
proof -
  have n: "0 \<le> ms_2_count h 4000" by (simp add: ms_2_count_nonneg)
  have a: "reaches h img (3 * (nat (ms_2_count h 4000) + 1)) s
      (\<lambda>s'. settled s' (SYNC_POSITION, x, y, l, ms_2_count h 4000 + 1))"
    using sync_position_ticks [OF assms(1) t, of "nat (ms_2_count h 4000) + 1" img] n
    by (simp add: add.commute)
  have b: "reaches h img 3 s' (\<lambda>s'. settled s' (STOP, 0, 0, l, 0))"
    if "settled s' (SYNC_POSITION, x, y, l, ms_2_count h 4000 + 1)" for s'
    using sync_position_exit [OF assms(1) that] by simp
  have "reaches h img (3 * (nat (ms_2_count h 4000) + 1) + 3) s (\<lambda>s'. settled s' (STOP, 0, 0, l, 0))"
    using reaches_trans [OF a b] .
  then show ?thesis by (simp add: algebra_simps)
qed

lemma sync_controller_phase:
  assumes t: "settled s (SYNC_CONTROLLER, x, y, l, 0)"
  shows "reaches h img (3 * (nat (ms_2_count h 2000) + 2)) s
    (\<lambda>s'. settled s' (SYNC_POSITION, x, y, l, 0))"
proof -
  have n: "0 \<le> ms_2_count h 2000" by (simp add: ms_2_count_nonneg)
  have a: "reaches h img (3 * (nat (ms_2_count h 2000) + 1)) s
      (\<lambda>s'. settled s' (SYNC_CONTROLLER, x, y, l, ms_2_count h 2000 + 1))"
    using sync_controller_ticks [OF t, of "nat (ms_2_count h 2000) + 1" h img] n
    by (simp add: add.commute)
  have b: "reaches h img 3 s' (\<lambda>s'. settled s' (SYNC_POSITION, x, y, l, 0))"
    if "settled s' (SYNC_CONTROLLER, x, y, l, ms_2_count h 2000 + 1)" for s'
    using sync_controller_exit [OF that] by simp
  have "reaches h img (3 * (nat (ms_2_count h 2000) + 1) + 3) s
      (\<lambda>s'. settled s' (SYNC_POSITION, x, y, l, 0))"
    using reaches_trans [OF a b] .
  then show ?thesis by (simp add: algebra_simps)
qed

lemma settled_init: "settled init (SYNC_CONTROLLER, 0, 0, 0, 0)"
  by (simp add: settled_def core_def init_def)

lemma sync_done:
  assumes "header_ok h"
  shows "reaches h img (sync_calls h) init (\<lambda>s'. settled s' (STOP, 0, 0, 0, 0))"
  unfolding sync_calls_def
  by (rule reaches_trans [OF sync_controller_phase [OF settled_init]])
     (rule sync_position_phase [OF assms])

lemma row_start:
  assumes "header_ok h" "length img = 0x12c1" "n \<le> 120"
  shows "reaches h img (sync_calls h + 1980 * n) init
    (\<lambda>s'. settled s' (STOP, if even n then 0 else 319, int n, 0, 0))"
  by (rule reaches_trans [OF sync_done [OF assms(1)]]) (rule rows [OF assms(1,2) _ assms(3)])

lemma column_reached:
  assumes "header_ok h" "length img = 0x12c1" "y < 120" "j \<le> 319"
  shows "reaches h img (sync_calls h + 1980 * y + (6 * j + 3)) init
    (\<lambda>s'. settled s' (MOVE, if even y then int j else 319 - int j, int y, 0, 0))"
proof (rule reaches_trans [OF row_start [OF assms(1,2)]])
  show "y \<le> 120" using assms(3) by simp
next
  fix s
  assume s: "settled s (STOP, if even y then 0 else 319, int y, 0, 0)"
  have a: "reaches h img (6 * j) s
      (\<lambda>s'. settled s' (STOP, if even y then int j else 319 - int j, int y, 0, 0))"
  proof (cases "even y")
    case True
    then have "settled s (STOP, 0, int y, 0, 0)" using s by simp
    from sweep_right [OF assms(1,2) _ _ _ _ this, of j] True assms(3,4)
    show ?thesis by simp
  next
    case False
    then have "settled s (STOP, 319, int y, 0, 0)" using s by simp
    from sweep_left [OF assms(1,2) _ _ _ _ this, of j] False assms(3,4)
    show ?thesis by simp
  qed
  have b: "reaches h img 3 s'
      (\<lambda>s'. settled s' (MOVE, if even y then int j else 319 - int j, int y, 0, 0))"
    if "settled s' (STOP, if even y then int j else 319 - int j, int y, 0, 0)" for s'
    using stop_tick [OF assms(1,2) that] assms(3,4) by simp
  show "reaches h img (6 * j + 3) s
      (\<lambda>s'. settled s' (MOVE, if even y then int j else 319 - int j, int y, 0, 0))"
    using reaches_trans [OF a b] .
qed

subsection \<open>The invariant\<close>

lemma is_black_defined:
  assumes "length image_data = 0x12c1" "reach_inv s"
  shows "\<exists>b. is_black image_data (xpos s) (ypos s) = Some b"
proof (cases "ypos s = 120")
  case True
  then show ?thesis using assms is_black_last [OF assms(1)] by (simp add: reach_inv_def)
next
  case False
  then have "ypos s \<le> 119" using assms(2) by (simp add: reach_inv_def)
  then show ?thesis using is_black_bit [OF assms(1), of "xpos s" "ypos s"] assms(2)
    by (simp add: reach_inv_def)
qed

lemma inv_init: "reach_inv init"
  by (simp add: reach_inv_def init_def)

lemma inv_echo: "reach_inv s \<Longrightarrow> 0 < echoes s \<Longrightarrow> reach_inv (s\<lparr>echoes := echoes s - 1\<rparr>)"
  by (simp add: reach_inv_def)

lemma inv_sync_controller:
  assumes "reach_inv s" "\<not> 0 < echoes s" "state s = SYNC_CONTROLLER"
  shows "\<exists>r s'. GetNextReport h img b s = Some (r, s') \<and> reach_inv s'"
  using assms ms_2_count_le [of 2000 h]
  by (simp add: GetNextReport_def sync_controller_case_def after_switch_def position_update_def
      Let_def reach_inv_def ECHOES_def)

lemma inv_sync_position:
  assumes "header_ok h" "reach_inv s" "\<not> 0 < echoes s" "state s = SYNC_POSITION"
  shows "\<exists>r s'. GetNextReport h img b s = Some (r, s') \<and> reach_inv s'"
  using assms ms_2_count_le [of 4000 h]
  by (simp add: GetNextReport_def sync_position_case_def after_switch_def position_update_def
      Let_def reach_inv_def ECHOES_def header_okD prepare_empty_eq)

lemma inv_stop:
  assumes "header_ok h" "length img = 0x12c1" "reach_inv s" "\<not> 0 < echoes s" "state s = STOP"
  shows "\<exists>r s'. GetNextReport h img b s = Some (r, s') \<and> reach_inv s'"
proof -
  from is_black_defined [OF assms(2,3)] obtain black
    where "is_black img (xpos s) (ypos s) = Some black" by blast
  then show ?thesis
    using assms
    by (simp add: GetNextReport_def stop_case_def after_switch_def position_update_def
        Let_def reach_inv_def ECHOES_def header_okD prepare_empty_eq)
qed

lemma inv_move:
  assumes "header_ok h" "reach_inv s" "\<not> 0 < echoes s" "state s = MOVE"
  shows "\<exists>r s'. GetNextReport h img b s = Some (r, s') \<and> reach_inv s'"
proof -
  have y: "0 \<le> ypos s" "ypos s \<le> 119" using assms(2,4) by (auto simp: reach_inv_def)
  have p: "ypos s = 119 \<Longrightarrow> ypos s smod 2 = 1" by (simp add: smod_nonneg)
  show ?thesis
    using assms y p
    by (auto simp add: GetNextReport_def move_case_def after_switch_def position_update_def
        Let_def reach_inv_def ECHOES_def header_okD prepare_empty_eq)
qed

lemma inv_step:
  assumes "header_ok h" "length img = 0x12c1" "reach_inv s"
  shows "\<exists>r s'. GetNextReport h img b s = Some (r, s') \<and> reach_inv s'"
proof (cases "0 < echoes s")
  case True
  then show ?thesis using inv_echo [OF assms(3)] by (simp add: GetNextReport_echo)
next
  case False
  show ?thesis
  proof (cases "state s")
    case SYNC_CONTROLLER
    then show ?thesis using inv_sync_controller [OF assms(3) False] by simp
  next
    case SYNC_POSITION
    then show ?thesis using inv_sync_position [OF assms(1,3) False] by simp
  next
    case MOVE
    then show ?thesis using inv_move [OF assms(1,3) False] by simp
  next
    case STOP
    then show ?thesis using inv_stop [OF assms False] by simp
  next
    case DONE
    then show ?thesis using assms(3) False by (simp add: GetNextReport_done)
  qed
qed

lemma inv_run:
  assumes "header_ok h" "length img = 0x12c1"
  shows "reach_inv s \<Longrightarrow> \<exists>s'. run h img bufs n s = Some s' \<and> reach_inv s'"
proof (induction n arbitrary: s bufs)
  case 0
  then show ?case by simp
next
  case (Suc n)
  from inv_step [OF assms Suc.prems, of "bufs 0"] obtain r s1
    where s1: "GetNextReport h img (bufs 0) s = Some (r, s1)" "reach_inv s1" by blast
  from Suc.IH [OF s1(2), of "\<lambda>k. bufs (Suc k)"] s1(1) show ?case by simp
qed

lemma int_variables_fit:
  assumes "header_ok h" "length img = 0x12c1"
  shows "\<exists>s. run h img bufs n init = Some s
    \<and> (\<forall>v \<in> {echoes s, splat3_lag_correction_count s, command_count s, xpos s, ypos s}.
          0 \<le> v \<and> v < 2 ^ 15)"
  using inv_run [OF assms inv_init, of bufs n] by (auto simp: reach_inv_def)

subsection \<open>The concrete header\<close>

lemma header_ok_example: "header_ok example_h"
  by (simp add: header_ok_def example_h_def)

lemma ms_2_count_example:
  "ms_2_count example_h 2000 = 125" "ms_2_count example_h 4000 = 250"
  "ms_2_count example_h 1500 = 93" "ms_2_count example_h 3000 = 187"
  by (simp_all add: ms_2_count_eq example_h_def max_macro_def sdiv_nonneg)

lemma sync_calls_example: "sync_calls example_h = 1137"
  by (simp add: sync_calls_def ms_2_count_eq example_h_def max_macro_def sdiv_nonneg)

lemma example_run_end:
  "\<exists>s. run example_h (replicate 4801 0) (\<lambda>k. zero_report) 238737 init = Some s
     \<and> state s = STOP \<and> xpos s = 0 \<and> ypos s = 120"
proof -
  have "reaches example_h (replicate 4801 0) (sync_calls example_h + 1980 * 120) init
      (\<lambda>s'. settled s' (STOP, if even (120::nat) then 0 else 319, int 120, 0, 0))"
    by (rule row_start [OF header_ok_example]) simp_all
  then have "reaches example_h (replicate 4801 0) 238737 init (\<lambda>s'. settled s' (STOP, 0, 120, 0, 0))"
    by (simp add: sync_calls_example)
  then obtain s' where "run example_h (replicate 4801 0) (\<lambda>k. zero_report) 238737 init = Some s'"
    "settled s' (STOP, 0, 120, 0, 0)"
    unfolding reaches_def by blast
  then show ?thesis by (simp add: settled_def core_def)
qed

lemma example_done_reached:
  "\<exists>s. run example_h ((replicate 4801 0)[4800 := 1]) (\<lambda>k. zero_report) 238740 init = Some s
     \<and> state s = DONE \<and> echoes s = 0 \<and> xpos s = 0 \<and> ypos s = 120
     \<and> Button (last_report s) = 4"
proof -
  let ?img = "(replicate 4801 (0::8 word))[4800 := 1]"
  have "reaches example_h ?img (sync_calls example_h + 1980 * 120) init
      (\<lambda>s'. settled s' (STOP, if even (120::nat) then 0 else 319, int 120, 0, 0))"
    by (rule row_start [OF header_ok_example]) simp_all
  then have "reaches example_h ?img 238737 init (\<lambda>s'. settled s' (STOP, 0, 120, 0, 0))"
    by (simp add: sync_calls_example)
  then obtain s0 where s0: "run example_h ?img (\<lambda>k. zero_report) 238737 init = Some s0"
    "settled s0 (STOP, 0, 120, 0, 0)"
    unfolding reaches_def by blast
  have f: "state s0 = STOP" "echoes s0 \<le> 0" "119 < ypos s0" "xpos s0 = 0" "ypos s0 = 120"
    using s0(2) by (simp_all add: settled_def core_def)
  have q: "is_black ?img (xpos s0) (ypos s0) = Some True"
    by (simp add: f is_black_def pgm_read_byte_def)
  let ?r = "(prepare_empty example_h zero_report)\<lparr>Button := SWITCH_A example_h\<rparr>"
  let ?s1 = "s0\<lparr>state := DONE, last_report := ?r, echoes := 2\<rparr>"
  have c: "GetNextReport example_h ?img zero_report s0 = Some (?r, ?s1)"
    using stop_last_exact [OF f(1,2,3) q, of example_h zero_report] by simp
  have d: "state s0 \<noteq> DONE" using f(1) by simp
  from fresh_then_echoes [OF f(2) d c, of zero_report zero_report] c
  have three: "run example_h ?img (\<lambda>k. zero_report) 3 s0 = Some (?s1\<lparr>echoes := 0\<rparr>)"
    by (simp add: ECHOES_def numeral_3_eq_3)
  have "run example_h ?img (\<lambda>k. zero_report) 238740 init = Some (?s1\<lparr>echoes := 0\<rparr>)"
    using run_add [of example_h ?img "\<lambda>k. zero_report" 238737 3 init] s0(1) three by simp
  then show ?thesis using f by (simp add: example_h_def)
qed

section \<open>The claims\<close>

subsection \<open>C1: the cursor stays in range\<close>

text \<open>
  C1, as the spec has it: before and after every call from the initial state,
  \<open>0 \<le> x \<le> 319\<close> and \<open>0 \<le> y \<le> 119\<close>, so that the bitmap is never queried outside these
  ranges. The code contradicts the bound on \<open>y\<close>: the down step at the end of row 119 sets
  \<open>ypos\<close> to 120, and the \<open>STOP\<close> case queries the bitmap there before its test
  \<open>ypos > 119\<close> ends the run. With the concrete header and a blank image, 1137 calls
  synchronise, each of the 120 rows takes 1980 calls, and after these 238737 calls the
  machine is in phase \<open>STOP\<close> at \<open>(0, 120)\<close>.
\<close>

theorem ypos_reaches_120:
  "map_option (\<lambda>s. (state s, xpos s, ypos s))
     (run example_h (replicate 4801 0) (\<lambda>k. zero_report) 238737 init) = Some (STOP, 0, 120)"
  using example_run_end by auto

text \<open>
  C1, amended: for every number of calls from the initial state, the calls are all defined
  and afterwards \<open>0 \<le> x \<le> 319\<close> and \<open>0 \<le> y \<le> 120\<close>, with \<open>y = 120\<close> only at \<open>x = 0\<close>. A
  bitmap query is made at the cursor of such a state, hence at a coordinate of the canvas
  or at \<open>(0, 120)\<close>.
\<close>

theorem cursor_bounds:
  assumes "header_ok h" "length image_data = 0x12c1"
  shows "\<exists>s. run h image_data bufs n init = Some s
    \<and> 0 \<le> xpos s \<and> xpos s \<le> 319 \<and> 0 \<le> ypos s \<and> ypos s \<le> 120
    \<and> (ypos s = 120 \<longrightarrow> xpos s = 0)"
  using inv_run [OF assms inv_init, of bufs n] by (auto simp: reach_inv_def)

theorem cursor_bounds_witness:
  "header_ok example_h \<and> length (replicate 4801 (0::8 word)) = 0x12c1
   \<and> (\<exists>s. run example_h (replicate 4801 0) (\<lambda>k. zero_report) 238737 init = Some s
    \<and> 0 \<le> xpos s \<and> xpos s \<le> 319 \<and> 0 \<le> ypos s \<and> ypos s \<le> 120
    \<and> ypos s = 120 \<and> xpos s = 0)"
  using cursor_bounds [of example_h "replicate 4801 0" "\<lambda>k. zero_report" 238737]
    header_ok_example example_run_end
  by auto

subsection \<open>C2: the serpentine scan\<close>

text \<open>
  C2. Row parity determines the pad direction, for all 120 rows. For every row \<open>y < 120\<close>
  and every \<open>j \<le> 319\<close>, call number \<open>sync_calls h + 1980 * y + 6 * j + 3\<close> (counting from 0)
  is a fresh call in phase \<open>MOVE\<close>, made with the cursor in row \<open>y\<close> at column \<open>j\<close> on an
  even row and \<open>319 - j\<close> on an odd row, with the lag counter at 0; its report has the pad
  right on an even row and left on an odd row, and the cursor moves one column that way
  (it stays where it is at the end of the row, where this call is the first of the
  lag-correction window).
\<close>

theorem serpentine_scan:
  assumes "header_ok h" "length image_data = 0x12c1" "y < 120" "j \<le> 319"
  shows "\<exists>s r s'. run h image_data bufs (sync_calls h + 1980 * y + 6 * j + 3) init = Some s
    \<and> state s = MOVE \<and> echoes s \<le> 0
    \<and> ypos s = int y \<and> xpos s = (if even y then int j else 319 - int j)
    \<and> splat3_lag_correction_count s = 0
    \<and> GetNextReport h image_data b s = Some (r, s')
    \<and> HAT r = (if even y then HAT_RIGHT h else HAT_LEFT h)
    \<and> ypos s' = int y
    \<and> xpos s' = (if even y then min 319 (int j + 1) else max 0 (318 - int j))"
proof -
  from column_reached [OF assms] obtain s
    where s: "run h image_data bufs (sync_calls h + 1980 * y + (6 * j + 3)) init = Some s"
      "settled s (MOVE, if even y then int j else 319 - int j, int y, 0, 0)"
    unfolding reaches_def by blast
  from move_core [OF assms(1) s(2), of image_data b] obtain r s'
    where r: "GetNextReport h image_data b s = Some (r, s')"
      "HAT r = (if even y then HAT_RIGHT h else HAT_LEFT h)"
      "ypos s' = int y"
      "xpos s' = (if even y then min 319 (int j + 1) else max 0 (318 - int j))"
    using smod2 [of "int y"] assms(4) by (auto simp: core_def split: if_splits)
  show ?thesis
    using s r by (auto simp: settled_def core_def add.assoc)
qed

theorem serpentine_scan_witness:
  "header_ok example_h \<and> length (replicate 4801 (0::8 word)) = 0x12c1 \<and> (1::nat) < 120
   \<and> (7::nat) \<le> 319
   \<and> (\<exists>s r s'. run example_h (replicate 4801 0) (\<lambda>k. zero_report) 3162 init = Some s
     \<and> state s = MOVE \<and> echoes s \<le> 0 \<and> ypos s = 1 \<and> xpos s = 312
     \<and> splat3_lag_correction_count s = 0
     \<and> GetNextReport example_h (replicate 4801 0) zero_report s = Some (r, s')
     \<and> HAT r = 7 \<and> ypos s' = 1 \<and> xpos s' = 311)"
  using serpentine_scan [OF header_ok_example, of "replicate 4801 0" 1 7 "\<lambda>k. zero_report"
      zero_report]
  by (simp add: sync_calls_example header_ok_example) (simp add: example_h_def)

subsection \<open>C3: the lag-correction window\<close>

text \<open>
  C3. At a row boundary (\<open>x = 0\<close> on an odd row, \<open>x = 319\<close> on an even row), reached in phase
  \<open>MOVE\<close> with the lag counter at 0, as the scan of every row reaches it: the \<open>MOVE\<close>
  steps come every 6 calls; the first 10 of them report the same horizontal direction
  (left at \<open>x = 0\<close>, right at \<open>x = 319\<close>) and leave the cursor where it is, with the counter
  going from 0 to 9; the eleventh reports down, moves the cursor one row down and leaves
  the counter at 0; and the twelfth, if the new row is on the canvas, reports the opposite
  horizontal direction, so the down step is a single one.
\<close>

theorem lag_correction_window:
  assumes "header_ok h" "length image_data = 0x12c1"
    "state s = MOVE" "echoes s \<le> 0" "splat3_lag_correction_count s = 0"
    "0 \<le> ypos s" "ypos s \<le> 119"
    "(xpos s = 0 \<and> odd (ypos s)) \<or> (xpos s = 319 \<and> even (ypos s))"
  shows "(\<forall>k<10. \<exists>sk r s'. run h image_data bufs (6 * k) s = Some sk
      \<and> state sk = MOVE \<and> echoes sk \<le> 0 \<and> xpos sk = xpos s \<and> ypos sk = ypos s
      \<and> splat3_lag_correction_count sk = int k
      \<and> GetNextReport h image_data b sk = Some (r, s')
      \<and> HAT r = (if xpos s = 0 then HAT_LEFT h else HAT_RIGHT h)
      \<and> xpos s' = xpos s \<and> ypos s' = ypos s)
    \<and> (\<exists>sk r s'. run h image_data bufs (6 * 10) s = Some sk
      \<and> state sk = MOVE \<and> echoes sk \<le> 0 \<and> xpos sk = xpos s \<and> ypos sk = ypos s
      \<and> splat3_lag_correction_count sk = 10
      \<and> GetNextReport h image_data b sk = Some (r, s')
      \<and> HAT r = HAT_BOTTOM h
      \<and> xpos s' = xpos s \<and> ypos s' = ypos s + 1 \<and> splat3_lag_correction_count s' = 0)
    \<and> (ypos s < 119 \<longrightarrow>
        (\<exists>sk r s'. run h image_data bufs (6 * 11) s = Some sk
          \<and> state sk = MOVE \<and> echoes sk \<le> 0 \<and> xpos sk = xpos s \<and> ypos sk = ypos s + 1
          \<and> splat3_lag_correction_count sk = 0
          \<and> GetNextReport h image_data b sk = Some (r, s')
          \<and> HAT r = (if xpos s = 0 then HAT_RIGHT h else HAT_LEFT h)))"
proof -
  have st: "settled s (MOVE, xpos s, ypos s, 0, command_count s)"
    using assms(3,4,5) by (simp add: settled_def core_def)
  have step: "\<exists>sk r s'. run h image_data bufs (6 * k) s = Some sk
      \<and> state sk = MOVE \<and> echoes sk \<le> 0 \<and> xpos sk = xpos s \<and> ypos sk = ypos s
      \<and> splat3_lag_correction_count sk = int k
      \<and> GetNextReport h image_data b sk = Some (r, s')
      \<and> (r, core s') =
          (if int k < 10
           then (if xpos s = 0
                 then ((prepare_empty h b)\<lparr>HAT := HAT_LEFT h\<rparr>,
                       (STOP, xpos s, ypos s, int k + 1, command_count s))
                 else ((prepare_empty h b)\<lparr>HAT := HAT_RIGHT h\<rparr>,
                       (STOP, xpos s, ypos s, int k + 1, command_count s)))
           else ((prepare_empty h b)\<lparr>HAT := HAT_BOTTOM h\<rparr>,
                 (STOP, xpos s, ypos s + 1, 0, command_count s)))"
    if "k \<le> 10" for k
  proof -
    from move_window [OF assms(1,2,6,7,8) st that] obtain sk
      where sk: "run h image_data bufs (6 * k) s = Some sk"
        "settled sk (MOVE, xpos s, ypos s, int k, command_count s)"
      unfolding reaches_def by blast
    from move_core [OF assms(1) sk(2), of image_data b] obtain r s'
      where "GetNextReport h image_data b sk = Some (r, s')"
        "(r, core s') =
          (if int k < 10
           then (if xpos s = 0
                 then ((prepare_empty h b)\<lparr>HAT := HAT_LEFT h\<rparr>,
                       (STOP, xpos s, ypos s, int k + 1, command_count s))
                 else ((prepare_empty h b)\<lparr>HAT := HAT_RIGHT h\<rparr>,
                       (STOP, xpos s, ypos s, int k + 1, command_count s)))
           else ((prepare_empty h b)\<lparr>HAT := HAT_BOTTOM h\<rparr>,
                 (STOP, xpos s, ypos s + 1, 0, command_count s)))"
      using assms(8) smod2 [OF assms(6)] by auto
    with sk show ?thesis by (auto simp: settled_def core_def)
  qed
  have first: "\<exists>sk r s'. run h image_data bufs (6 * k) s = Some sk
      \<and> state sk = MOVE \<and> echoes sk \<le> 0 \<and> xpos sk = xpos s \<and> ypos sk = ypos s
      \<and> splat3_lag_correction_count sk = int k
      \<and> GetNextReport h image_data b sk = Some (r, s')
      \<and> HAT r = (if xpos s = 0 then HAT_LEFT h else HAT_RIGHT h)
      \<and> xpos s' = xpos s \<and> ypos s' = ypos s" if "k < 10" for k
    using step [of k] that by (auto simp: core_def split: if_splits)
  have last: "\<exists>sk r s'. run h image_data bufs (6 * 10) s = Some sk
      \<and> state sk = MOVE \<and> echoes sk \<le> 0 \<and> xpos sk = xpos s \<and> ypos sk = ypos s
      \<and> splat3_lag_correction_count sk = 10
      \<and> GetNextReport h image_data b sk = Some (r, s')
      \<and> HAT r = HAT_BOTTOM h
      \<and> xpos s' = xpos s \<and> ypos s' = ypos s + 1 \<and> splat3_lag_correction_count s' = 0"
    using step [of 10] by (auto simp: core_def)
  have turn: "\<exists>sk r s'. run h image_data bufs (6 * 11) s = Some sk
          \<and> state sk = MOVE \<and> echoes sk \<le> 0 \<and> xpos sk = xpos s \<and> ypos sk = ypos s + 1
          \<and> splat3_lag_correction_count sk = 0
          \<and> GetNextReport h image_data b sk = Some (r, s')
          \<and> HAT r = (if xpos s = 0 then HAT_RIGHT h else HAT_LEFT h)" if "ypos s < 119"
  proof -
    have a: "reaches h image_data (6 * 10) s
        (\<lambda>s'. settled s' (MOVE, xpos s, ypos s, int 10, command_count s))"
      by (rule move_window [OF assms(1,2,6,7,8) st]) simp
    have b: "reaches h image_data 3 s'
        (\<lambda>s'. settled s' (STOP, xpos s, ypos s + 1, 0, command_count s))"
      if "settled s' (MOVE, xpos s, ypos s, int 10, command_count s)" for s'
      using move_tick_down [OF assms(1) that assms(6,8)] by simp
    have c: "reaches h image_data 3 s'
        (\<lambda>s'. settled s' (MOVE, xpos s, ypos s + 1, 0, command_count s))"
      if "settled s' (STOP, xpos s, ypos s + 1, 0, command_count s)" for s'
      using stop_tick [OF assms(1,2) that] assms(6,8) \<open>ypos s < 119\<close> by auto
    have "reaches h image_data (6 * 10 + (3 + 3)) s
        (\<lambda>s'. settled s' (MOVE, xpos s, ypos s + 1, 0, command_count s))"
      by (rule reaches_trans [OF a]) (rule reaches_trans [OF b c])
    then obtain sk where sk: "run h image_data bufs (6 * 11) s = Some sk"
      "settled sk (MOVE, xpos s, ypos s + 1, 0, command_count s)"
      unfolding reaches_def by auto
    have y1: "0 \<le> ypos s + 1" using assms(6) by simp
    from move_core [OF assms(1) sk(2), of image_data b] obtain r s'
      where "GetNextReport h image_data b sk = Some (r, s')"
        "HAT r = (if xpos s = 0 then HAT_RIGHT h else HAT_LEFT h)"
      using assms(8) smod2 [OF y1] by (auto split: if_splits)
    with sk show ?thesis by (auto simp: settled_def core_def)
  qed
  show ?thesis using first last turn by blast
qed

theorem lag_correction_window_witness:
  "header_ok example_h \<and> length (replicate 4801 (0::8 word)) = 0x12c1
   \<and> state (init\<lparr>state := MOVE, xpos := 319\<rparr>) = MOVE
   \<and> echoes (init\<lparr>state := MOVE, xpos := 319\<rparr>) \<le> 0
   \<and> splat3_lag_correction_count (init\<lparr>state := MOVE, xpos := 319\<rparr>) = 0
   \<and> xpos (init\<lparr>state := MOVE, xpos := 319\<rparr>) = 319
   \<and> ypos (init\<lparr>state := MOVE, xpos := 319\<rparr>) = 0
   \<and> (\<exists>sk r s'. run example_h (replicate 4801 0) (\<lambda>k. zero_report) 54
          (init\<lparr>state := MOVE, xpos := 319\<rparr>) = Some sk
      \<and> state sk = MOVE \<and> xpos sk = 319 \<and> ypos sk = 0 \<and> splat3_lag_correction_count sk = 9
      \<and> GetNextReport example_h (replicate 4801 0) zero_report sk = Some (r, s')
      \<and> HAT r = 3 \<and> xpos s' = 319 \<and> ypos s' = 0)
   \<and> (\<exists>sk r s'. run example_h (replicate 4801 0) (\<lambda>k. zero_report) 60
          (init\<lparr>state := MOVE, xpos := 319\<rparr>) = Some sk
      \<and> state sk = MOVE \<and> xpos sk = 319 \<and> ypos sk = 0 \<and> splat3_lag_correction_count sk = 10
      \<and> GetNextReport example_h (replicate 4801 0) zero_report sk = Some (r, s')
      \<and> HAT r = 5 \<and> xpos s' = 319 \<and> ypos s' = 1 \<and> splat3_lag_correction_count s' = 0)
   \<and> (\<exists>sk r s'. run example_h (replicate 4801 0) (\<lambda>k. zero_report) 66
          (init\<lparr>state := MOVE, xpos := 319\<rparr>) = Some sk
      \<and> state sk = MOVE \<and> xpos sk = 319 \<and> ypos sk = 1 \<and> splat3_lag_correction_count sk = 0
      \<and> GetNextReport example_h (replicate 4801 0) zero_report sk = Some (r, s')
      \<and> HAT r = 7)"
proof -
  let ?s = "init\<lparr>state := MOVE, xpos := 319\<rparr>"
  have f: "state ?s = MOVE" "echoes ?s \<le> 0" "splat3_lag_correction_count ?s = 0"
    "xpos ?s = 319" "ypos ?s = 0"
    by (simp_all add: init_def)
  have g: "length (replicate 4801 (0::8 word)) = 0x12c1" "0 \<le> ypos ?s" "ypos ?s \<le> 119"
    "(xpos ?s = 0 \<and> odd (ypos ?s)) \<or> (xpos ?s = 319 \<and> even (ypos ?s))"
    by (simp_all add: init_def)
  note w = lag_correction_window [OF header_ok_example g(1) f(1,2,3) g(2,3,4),
      of "\<lambda>k. zero_report" zero_report]
  from w have a: "\<exists>sk r s'. run example_h (replicate 4801 0) (\<lambda>k. zero_report) (6 * 9) ?s = Some sk
      \<and> state sk = MOVE \<and> echoes sk \<le> 0 \<and> xpos sk = xpos ?s \<and> ypos sk = ypos ?s
      \<and> splat3_lag_correction_count sk = int 9
      \<and> GetNextReport example_h (replicate 4801 0) zero_report sk = Some (r, s')
      \<and> HAT r = (if xpos ?s = 0 then HAT_LEFT example_h else HAT_RIGHT example_h)
      \<and> xpos s' = xpos ?s \<and> ypos s' = ypos ?s"
    by (elim conjE allE [of _ 9]) simp
  from w have b: "\<exists>sk r s'. run example_h (replicate 4801 0) (\<lambda>k. zero_report) (6 * 10) ?s = Some sk
      \<and> state sk = MOVE \<and> echoes sk \<le> 0 \<and> xpos sk = xpos ?s \<and> ypos sk = ypos ?s
      \<and> splat3_lag_correction_count sk = 10
      \<and> GetNextReport example_h (replicate 4801 0) zero_report sk = Some (r, s')
      \<and> HAT r = HAT_BOTTOM example_h
      \<and> xpos s' = xpos ?s \<and> ypos s' = ypos ?s + 1 \<and> splat3_lag_correction_count s' = 0"
    by (elim conjE)
  from w f(5) have c: "\<exists>sk r s'. run example_h (replicate 4801 0) (\<lambda>k. zero_report) (6 * 11) ?s = Some sk
          \<and> state sk = MOVE \<and> echoes sk \<le> 0 \<and> xpos sk = xpos ?s \<and> ypos sk = ypos ?s + 1
          \<and> splat3_lag_correction_count sk = 0
          \<and> GetNextReport example_h (replicate 4801 0) zero_report sk = Some (r, s')
          \<and> HAT r = (if xpos ?s = 0 then HAT_RIGHT example_h else HAT_LEFT example_h)"
    by (elim conjE) simp
  have hv: "HAT_RIGHT example_h = 3" "HAT_BOTTOM example_h = 5" "HAT_LEFT example_h = 7"
    by (simp_all add: example_h_def)
  from c have c': "\<exists>sk r s'. run example_h (replicate 4801 0) (\<lambda>k. zero_report) 66 ?s = Some sk
      \<and> state sk = MOVE \<and> xpos sk = 319 \<and> ypos sk = 1 \<and> splat3_lag_correction_count sk = 0
      \<and> GetNextReport example_h (replicate 4801 0) zero_report sk = Some (r, s')
      \<and> HAT r = 7"
    unfolding f hv by simp blast
  from a have a': "\<exists>sk r s'. run example_h (replicate 4801 0) (\<lambda>k. zero_report) 54 ?s = Some sk
      \<and> state sk = MOVE \<and> xpos sk = 319 \<and> ypos sk = 0 \<and> splat3_lag_correction_count sk = 9
      \<and> GetNextReport example_h (replicate 4801 0) zero_report sk = Some (r, s')
      \<and> HAT r = 3 \<and> xpos s' = 319 \<and> ypos s' = 0"
    unfolding f hv by simp blast
  from b have b': "\<exists>sk r s'. run example_h (replicate 4801 0) (\<lambda>k. zero_report) 60 ?s = Some sk
      \<and> state sk = MOVE \<and> xpos sk = 319 \<and> ypos sk = 0 \<and> splat3_lag_correction_count sk = 10
      \<and> GetNextReport example_h (replicate 4801 0) zero_report sk = Some (r, s')
      \<and> HAT r = 5 \<and> xpos s' = 319 \<and> ypos s' = 1 \<and> splat3_lag_correction_count s' = 0"
    unfolding f hv by simp blast
  show ?thesis using header_ok_example g(1) f a' b' c' by blast
qed

subsection \<open>C4: inking\<close>

text \<open>
  C4. In a fresh call in phase \<open>STOP\<close> whose bitmap query is defined, the call returns a
  report whose button mask is \<open>SWITCH_A\<close> if the pixel at the cursor is black and 0
  otherwise: the \<open>SWITCH_A\<close> bits are asserted if and only if \<open>is_black\<close> is true at the
  cursor. (A mask \<open>SWITCH_A = 0\<close> would assert nothing.)
\<close>

theorem ink_iff_black:
  assumes "state s = STOP" "echoes s \<le> 0" "SWITCH_A h \<noteq> 0"
    "is_black image_data (xpos s) (ypos s) = Some black"
  shows "\<exists>r s'. GetNextReport h image_data ReportData s = Some (r, s')
    \<and> Button r = (if black then SWITCH_A h else 0)
    \<and> ((Button r AND SWITCH_A h = SWITCH_A h) = black)"
  using assms
  by (simp add: GetNextReport_def stop_case_def after_switch_def prepare_empty_eq Let_def)

theorem ink_iff_black_witness:
  "state (init\<lparr>state := STOP, xpos := 10, ypos := 1\<rparr>) = STOP
   \<and> echoes (init\<lparr>state := STOP, xpos := 10, ypos := 1\<rparr>) \<le> 0
   \<and> SWITCH_A example_h \<noteq> 0
   \<and> is_black ((replicate 4801 0)[41 := 4]) 10 1 = Some True
   \<and> (\<exists>r s'. GetNextReport example_h ((replicate 4801 0)[41 := 4]) zero_report
         (init\<lparr>state := STOP, xpos := 10, ypos := 1\<rparr>) = Some (r, s')
       \<and> Button r = 4 \<and> Button r AND 4 = 4)"
  using ink_iff_black [of "init\<lparr>state := STOP, xpos := 10, ypos := 1\<rparr>" example_h
      "(replicate 4801 0)[41 := 4]" True zero_report] is_black_example
  by (simp add: init_def example_h_def)

subsection \<open>C5: the echo law\<close>

text \<open>
  C5, as the spec has it: in every call sequence, each freshly synthesized report is
  followed by exactly \<open>ECHOES\<close> replays of it before the next fresh call. The case \<open>DONE\<close>
  returns before the echo set-up, so this fails once the run is over. With the concrete
  header and an image whose byte 4800 has bit 0 set, the machine is in phase \<open>DONE\<close> with
  no replay pending after 238740 calls from the initial state, and the cached report
  has the button mask 4 of the last \<open>STOP\<close> step. The next call returns a report with no
  button, which is therefore not a replay, and leaves every global as it was: nothing is
  cached and \<open>echoes\<close> stays 0, so the call after it is a fresh call again and no replay
  follows.
\<close>

theorem done_call_not_echoed:
  "map_option (\<lambda>s. (state s, echoes s, Button (last_report s)))
     (run example_h ((replicate 4801 0)[4800 := 1]) (\<lambda>k. zero_report) 238740 init)
     = Some (DONE, 0, 4)
   \<and> Option.bind (run example_h ((replicate 4801 0)[4800 := 1]) (\<lambda>k. zero_report) 238740 init)
       (\<lambda>s. map_option (\<lambda>(r, s'). (Button r, s' = s))
          (GetNextReport example_h ((replicate 4801 0)[4800 := 1]) zero_report s))
     = Some (0, True)"
proof -
  from example_done_reached obtain s
    where s: "run example_h ((replicate 4801 0)[4800 := 1]) (\<lambda>k. zero_report) 238740 init = Some s"
      "state s = DONE" "echoes s = 0" "Button (last_report s) = 4"
    by blast
  have "\<not> 0 < echoes s" using s(3) by simp
  from GetNextReport_done [OF this s(2), of example_h "(replicate 4801 0)[4800 := 1]" zero_report]
  show ?thesis using s by (simp add: prepare_empty_eq)
qed

text \<open>
  C5, amended. After a fresh call in any phase, the next two calls return the same report
  whatever the caller's buffer holds, and change no global but \<open>echoes\<close>. When the fresh
  call is made in a phase other than \<open>DONE\<close>, it caches its report and leaves
  \<open>echoes = ECHOES = 2\<close>; the next two calls are the replays, which count \<open>echoes\<close> down to
  0, so the call after them is a fresh one again: exactly two replays. When it is made in
  phase \<open>DONE\<close>, it changes no global, so nothing is cached and no replay is armed: the
  next call is a fresh call in phase \<open>DONE\<close> again, returning the same neutral report.
\<close>

theorem echo_law:
  assumes "echoes s \<le> 0" "GetNextReport h image_data b0 s = Some (r, s1)"
  shows "(\<exists>s2 s3. GetNextReport h image_data b1 s1 = Some (r, s2)
        \<and> GetNextReport h image_data b2 s2 = Some (r, s3)
        \<and> s2\<lparr>echoes := 0\<rparr> = s1\<lparr>echoes := 0\<rparr> \<and> s3\<lparr>echoes := 0\<rparr> = s1\<lparr>echoes := 0\<rparr>
        \<and> echoes s3 \<le> 0)
    \<and> (state s \<noteq> DONE \<longrightarrow>
        echoes s1 = ECHOES \<and> ECHOES = 2 \<and> last_report s1 = r
        \<and> GetNextReport h image_data b1 s1 = Some (r, s1\<lparr>echoes := 1\<rparr>)
        \<and> GetNextReport h image_data b2 (s1\<lparr>echoes := 1\<rparr>) = Some (r, s1\<lparr>echoes := 0\<rparr>)
        \<and> echoes (s1\<lparr>echoes := 0\<rparr>) \<le> 0)
    \<and> (state s = DONE \<longrightarrow>
        s1 = s \<and> echoes s1 \<le> 0 \<and> GetNextReport h image_data b1 s1 = Some (r, s1))"
proof (cases "state s = DONE")
  case True
  have a: "\<not> 0 < echoes s" using assms(1) by simp
  from GetNextReport_done [OF a True, of h image_data b0] assms(2)
  have r: "r = prepare_empty h b0" "s1 = s" by simp_all
  have n: "GetNextReport h image_data b s = Some (r, s)" for b
    using GetNextReport_done [OF a True, of h image_data b] r(1) by (simp add: prepare_empty_eq)
  have "GetNextReport h image_data b1 s1 = Some (r, s) \<and> GetNextReport h image_data b2 s = Some (r, s)
      \<and> s\<lparr>echoes := 0\<rparr> = s1\<lparr>echoes := 0\<rparr> \<and> s\<lparr>echoes := 0\<rparr> = s1\<lparr>echoes := 0\<rparr> \<and> echoes s \<le> 0"
    using n r(2) assms(1) by simp
  then have "\<exists>s2 s3. GetNextReport h image_data b1 s1 = Some (r, s2)
        \<and> GetNextReport h image_data b2 s2 = Some (r, s3)
        \<and> s2\<lparr>echoes := 0\<rparr> = s1\<lparr>echoes := 0\<rparr> \<and> s3\<lparr>echoes := 0\<rparr> = s1\<lparr>echoes := 0\<rparr>
        \<and> echoes s3 \<le> 0"
    by blast
  then show ?thesis using True r(2) n assms(1) by simp
next
  case False
  have a: "\<not> 0 < echoes s" using assms(1) by simp
  note f = fresh_then_echoes [OF assms(1) False assms(2), of b1 b2]
  have l: "last_report s1 = r" using GetNextReport_fresh_echo [OF a False assms(2)] by simp
  have "GetNextReport h image_data b1 s1 = Some (r, s1\<lparr>echoes := 1\<rparr>)
      \<and> GetNextReport h image_data b2 (s1\<lparr>echoes := 1\<rparr>) = Some (r, s1\<lparr>echoes := 0\<rparr>)
      \<and> (s1\<lparr>echoes := 1\<rparr>)\<lparr>echoes := 0\<rparr> = s1\<lparr>echoes := 0\<rparr>
      \<and> (s1\<lparr>echoes := 0\<rparr>)\<lparr>echoes := 0\<rparr> = s1\<lparr>echoes := 0\<rparr>
      \<and> echoes (s1\<lparr>echoes := 0\<rparr>) \<le> 0"
    using f by simp
  then have "\<exists>s2 s3. GetNextReport h image_data b1 s1 = Some (r, s2)
        \<and> GetNextReport h image_data b2 s2 = Some (r, s3)
        \<and> s2\<lparr>echoes := 0\<rparr> = s1\<lparr>echoes := 0\<rparr> \<and> s3\<lparr>echoes := 0\<rparr> = s1\<lparr>echoes := 0\<rparr>
        \<and> echoes s3 \<le> 0"
    by blast
  then show ?thesis using False f l by simp
qed

theorem echo_law_witness:
  "echoes (init\<lparr>state := MOVE\<rparr>) \<le> 0 \<and> state (init\<lparr>state := MOVE\<rparr>) = MOVE
   \<and> GetNextReport example_h (replicate 4801 0) zero_report (init\<lparr>state := MOVE\<rparr>)
       = Some ((prepare_empty example_h zero_report)\<lparr>HAT := 3\<rparr>,
           init\<lparr>state := STOP, xpos := 1,
             last_report := (prepare_empty example_h zero_report)\<lparr>HAT := 3\<rparr>, echoes := 2\<rparr>)
   \<and> GetNextReport example_h (replicate 4801 0)
         \<lparr>Button = 0xFFFF, HAT = 1, LX = 1, LY = 2, RX = 3, RY = 4, VendorSpec = 5\<rparr>
         (init\<lparr>state := STOP, xpos := 1,
             last_report := (prepare_empty example_h zero_report)\<lparr>HAT := 3\<rparr>, echoes := 2\<rparr>)
       = Some ((prepare_empty example_h zero_report)\<lparr>HAT := 3\<rparr>,
           init\<lparr>state := STOP, xpos := 1,
             last_report := (prepare_empty example_h zero_report)\<lparr>HAT := 3\<rparr>, echoes := 1\<rparr>)
   \<and> GetNextReport example_h (replicate 4801 0)
         \<lparr>Button = 0xFFFF, HAT = 1, LX = 1, LY = 2, RX = 3, RY = 4, VendorSpec = 5\<rparr>
         (init\<lparr>state := STOP, xpos := 1,
             last_report := (prepare_empty example_h zero_report)\<lparr>HAT := 3\<rparr>, echoes := 1\<rparr>)
       = Some ((prepare_empty example_h zero_report)\<lparr>HAT := 3\<rparr>,
           init\<lparr>state := STOP, xpos := 1,
             last_report := (prepare_empty example_h zero_report)\<lparr>HAT := 3\<rparr>, echoes := 0\<rparr>)
   \<and> (prepare_empty example_h zero_report)\<lparr>HAT := 3\<rparr>
       \<noteq> prepare_empty example_h \<lparr>Button = 0xFFFF, HAT = 1, LX = 1, LY = 2, RX = 3, RY = 4, VendorSpec = 5\<rparr>
   \<and> state (init\<lparr>state := DONE, ypos := 120, last_report := zero_report\<lparr>Button := 4\<rparr>\<rparr>) = DONE
   \<and> echoes (init\<lparr>state := DONE, ypos := 120, last_report := zero_report\<lparr>Button := 4\<rparr>\<rparr>) \<le> 0
   \<and> GetNextReport example_h (replicate 4801 0) zero_report
         (init\<lparr>state := DONE, ypos := 120, last_report := zero_report\<lparr>Button := 4\<rparr>\<rparr>)
       = Some (prepare_empty example_h zero_report,
           init\<lparr>state := DONE, ypos := 120, last_report := zero_report\<lparr>Button := 4\<rparr>\<rparr>)
   \<and> GetNextReport example_h (replicate 4801 0)
         \<lparr>Button = 0xFFFF, HAT = 1, LX = 1, LY = 2, RX = 3, RY = 4, VendorSpec = 5\<rparr>
         (init\<lparr>state := DONE, ypos := 120, last_report := zero_report\<lparr>Button := 4\<rparr>\<rparr>)
       = Some (prepare_empty example_h zero_report,
           init\<lparr>state := DONE, ypos := 120, last_report := zero_report\<lparr>Button := 4\<rparr>\<rparr>)"
proof -
  let ?d = "\<lparr>Button = 0xFFFF, HAT = 1, LX = 1, LY = 2, RX = 3, RY = 4, VendorSpec = 5\<rparr>"
  let ?s = "init\<lparr>state := MOVE\<rparr>"
  let ?r = "(prepare_empty example_h zero_report)\<lparr>HAT := 3\<rparr>"
  let ?s1 = "init\<lparr>state := STOP, xpos := 1, last_report := ?r, echoes := 2\<rparr>"
  let ?sD = "init\<lparr>state := DONE, ypos := 120, last_report := zero_report\<lparr>Button := 4\<rparr>\<rparr>"
  have a: "echoes ?s \<le> 0" "state ?s = MOVE" "state ?s \<noteq> DONE" by (simp_all add: init_def)
  have b: "GetNextReport example_h (replicate 4801 0) zero_report ?s = Some (?r, ?s1)"
    by (simp add: GetNextReport_def move_case_def after_switch_def position_update_def
        init_def ECHOES_def Let_def example_h_def)
  have ne: "?r \<noteq> prepare_empty example_h ?d"
    by (simp add: prepare_empty_eq example_h_def)
  have aD: "state ?sD = DONE" "echoes ?sD \<le> 0" by (simp_all add: init_def)
  have bD: "GetNextReport example_h (replicate 4801 0) zero_report ?sD
      = Some (prepare_empty example_h zero_report, ?sD)"
    by (simp add: GetNextReport_def init_def)
  have m: "GetNextReport example_h (replicate 4801 0) ?d ?s1 = Some (?r, ?s1\<lparr>echoes := 1\<rparr>)"
    "GetNextReport example_h (replicate 4801 0) ?d (?s1\<lparr>echoes := 1\<rparr>) = Some (?r, ?s1\<lparr>echoes := 0\<rparr>)"
    using echo_law [OF a(1) b, of ?d ?d] a(3) by blast+
  have n: "GetNextReport example_h (replicate 4801 0) ?d ?sD
      = Some (prepare_empty example_h zero_report, ?sD)"
    using echo_law [OF aD(2) bD, of ?d ?d] aD(1) by blast
  show ?thesis using a b m ne aD bD n by simp
qed

subsection \<open>C6: termination\<close>

text \<open>
  C6. When the \<open>STOP\<close> step runs with the cursor row above 119 (and its bitmap query is
  defined, as it is at \<open>(0, 120)\<close>), the phase becomes \<open>DONE\<close> and the cursor is unchanged;
  after any number of further calls the phase is still \<open>DONE\<close> and the cursor is still the
  same.
\<close>

theorem done_absorbing:
  assumes "state s = STOP" "echoes s \<le> 0" "119 < ypos s"
    "is_black image_data (xpos s) (ypos s) = Some black"
  shows "\<exists>r s1. GetNextReport h image_data b s = Some (r, s1)
    \<and> state s1 = DONE \<and> xpos s1 = xpos s \<and> ypos s1 = ypos s
    \<and> (\<forall>bufs n. \<exists>s2. run h image_data bufs n s1 = Some s2
          \<and> state s2 = DONE \<and> xpos s2 = xpos s \<and> ypos s2 = ypos s)"
proof -
  obtain r s1 where a: "GetNextReport h image_data b s = Some (r, s1)"
    "state s1 = DONE" "xpos s1 = xpos s" "ypos s1 = ypos s"
    using assms
    by (simp add: GetNextReport_def stop_case_def after_switch_def position_update_def Let_def)
  have "\<exists>s2. run h image_data bufs n s1 = Some s2
          \<and> state s2 = DONE \<and> xpos s2 = xpos s \<and> ypos s2 = ypos s" for bufs n
    using run_done [OF a(2), of h image_data bufs n] a(3,4) by simp
  with a show ?thesis by blast
qed

theorem done_absorbing_witness:
  "state (init\<lparr>state := STOP, ypos := 120\<rparr>) = STOP
   \<and> echoes (init\<lparr>state := STOP, ypos := 120\<rparr>) \<le> 0
   \<and> 119 < ypos (init\<lparr>state := STOP, ypos := 120\<rparr>)
   \<and> is_black (replicate 4801 0) 0 120 = Some False
   \<and> (\<exists>r s1. GetNextReport example_h (replicate 4801 0) zero_report
          (init\<lparr>state := STOP, ypos := 120\<rparr>) = Some (r, s1)
      \<and> state s1 = DONE \<and> xpos s1 = 0 \<and> ypos s1 = 120
      \<and> (\<exists>s2. run example_h (replicate 4801 0) (\<lambda>k. zero_report) 7 s1 = Some s2
          \<and> state s2 = DONE \<and> xpos s2 = 0 \<and> ypos s2 = 120))"
proof -
  let ?s = "init\<lparr>state := STOP, ypos := 120\<rparr>"
  have f: "state ?s = STOP" "echoes ?s \<le> 0" "119 < ypos ?s" by (simp_all add: init_def)
  have g: "is_black (replicate 4801 0) (xpos ?s) (ypos ?s) = Some False"
    by (simp add: init_def is_black_def pgm_read_byte_def)
  from done_absorbing [OF f g, of example_h zero_report] obtain r s1
    where a: "GetNextReport example_h (replicate 4801 0) zero_report ?s = Some (r, s1)"
      "state s1 = DONE" "xpos s1 = xpos ?s" "ypos s1 = ypos ?s"
      "\<forall>bufs n. \<exists>s2. run example_h (replicate 4801 0) bufs n s1 = Some s2
          \<and> state s2 = DONE \<and> xpos s2 = xpos ?s \<and> ypos s2 = ypos ?s"
    by blast
  from a(5) have "\<exists>s2. run example_h (replicate 4801 0) (\<lambda>k. zero_report) 7 s1 = Some s2
          \<and> state s2 = DONE \<and> xpos s2 = xpos ?s \<and> ypos s2 = ypos ?s"
    by blast
  with a f g show ?thesis by (simp add: init_def)
qed

subsection \<open>C7: the position synchronisation\<close>

text \<open>
  C7, as the spec has it: after \<open>ms_2_count(4000)\<close> logical steps of \<open>SYNC_POSITION\<close> the
  phase is \<open>STOP\<close>, and every step before the transition drives both analog sticks to
  their minimum. The code tests \<open>command_count > ms_2_count(4000)\<close> before it counts, so
  the phase lasts two logical steps longer: with the concrete header, \<open>SYNC_POSITION\<close> is
  entered after 381 calls with the counter at 0; \<open>ms_2_count(4000)\<close> is 250; and 250
  logical steps (750 calls) later the phase is still \<open>SYNC_POSITION\<close>, with the counter at
  250. And the code writes \<open>LX\<close> and \<open>LY\<close> only: the right stick stays at the centre, 128,
  where the minimum is 0.
\<close>

theorem sync_position_not_over:
  "map_option (\<lambda>s. (state s, command_count s))
     (run example_h (replicate 4801 0) (\<lambda>k. zero_report) 381 init) = Some (SYNC_POSITION, 0)
   \<and> ms_2_count example_h 4000 = 250
   \<and> map_option (\<lambda>s. (state s, command_count s, echoes s))
     (run example_h (replicate 4801 0) (\<lambda>k. zero_report) (381 + 3 * 250) init)
       = Some (SYNC_POSITION, 250, 0)
   \<and> map_option (\<lambda>(r, s). (LX r, LY r, RX r, RY r, STICK_MIN example_h))
     (GetNextReport example_h (replicate 4801 0) zero_report (init\<lparr>state := SYNC_POSITION\<rparr>))
       = Some (0, 0, 128, 128, 0)"
proof -
  have a: "reaches example_h (replicate 4801 0) 381 init
      (\<lambda>s'. settled s' (SYNC_POSITION, 0, 0, 0, 0))"
    using sync_controller_phase [OF settled_init, of example_h "replicate 4801 0"]
    by (simp add: ms_2_count_example)
  have b: "reaches example_h (replicate 4801 0) (3 * 250) s'
      (\<lambda>s'. settled s' (SYNC_POSITION, 0, 0, 0, 250))"
    if "settled s' (SYNC_POSITION, 0, 0, 0, 0)" for s'
    using sync_position_ticks [OF header_ok_example that, of 250 "replicate 4801 0"]
    by (simp add: ms_2_count_example)
  have c: "reaches example_h (replicate 4801 0) (381 + 3 * 250) init
      (\<lambda>s'. settled s' (SYNC_POSITION, 0, 0, 0, 250))"
    using reaches_trans [OF a b] .
  from a obtain s1 where s1: "run example_h (replicate 4801 0) (\<lambda>k. zero_report) 381 init = Some s1"
    "settled s1 (SYNC_POSITION, 0, 0, 0, 0)"
    unfolding reaches_def by blast
  from c obtain s2
    where s2: "run example_h (replicate 4801 0) (\<lambda>k. zero_report) (381 + 3 * 250) init = Some s2"
    "settled s2 (SYNC_POSITION, 0, 0, 0, 250)"
    unfolding reaches_def by blast
  have "0 \<le> echoes s2"
    using inv_run [OF header_ok_example _ inv_init,
        of "replicate 4801 0" "\<lambda>k. zero_report" "381 + 3 * 250"] s2(1)
    by (auto simp: reach_inv_def)
  moreover have "map_option (\<lambda>(r, s). (LX r, LY r, RX r, RY r, STICK_MIN example_h))
     (GetNextReport example_h (replicate 4801 0) zero_report (init\<lparr>state := SYNC_POSITION\<rparr>))
       = Some (0, 0, 128, 128, 0)"
    by (simp add: GetNextReport_def sync_position_case_def after_switch_def position_update_def
        prepare_empty_eq init_def ms_2_count_example Let_def)
      (simp add: example_h_def)
  ultimately show ?thesis
    using s1 s2 by (simp add: settled_def core_def ms_2_count_example)
qed

text \<open>
  C7, amended. From the entry to \<open>SYNC_POSITION\<close> (counter 0, no replay pending):
  every logical step \<open>k\<close> from 0 to \<open>ms_2_count(4000)\<close> is made with the counter at \<open>k\<close>,
  drives \<open>LX\<close> and \<open>LY\<close> to \<open>STICK_MIN\<close>, leaves \<open>RX\<close> and \<open>RY\<close> at \<open>STICK_CENTER\<close>, and asserts \<open>SWITCH_LCLICK\<close> if and only if \<open>k\<close> is
  \<open>ms_2_count(1500)\<close> or \<open>ms_2_count(3000)\<close>; the next logical step is the transition, which
  asserts no button, sets the cursor to \<open>(0, 0)\<close> and the phase to \<open>STOP\<close>; so after
  \<open>ms_2_count(4000) + 2\<close> logical steps the cursor is \<open>(0, 0)\<close> and the phase is \<open>STOP\<close>.
  Both checkpoints lie within the phase, and they are two different steps when
  \<open>POLLING_MS\<close> is below 1504.
\<close>

theorem sync_position_law:
  assumes "header_ok h" "SWITCH_LCLICK h \<noteq> 0"
    "state s = SYNC_POSITION" "echoes s \<le> 0" "command_count s = 0"
  shows "(\<forall>k. int k \<le> ms_2_count h 4000 \<longrightarrow>
      (\<exists>sk r s'. run h image_data bufs (3 * k) s = Some sk
        \<and> state sk = SYNC_POSITION \<and> echoes sk \<le> 0 \<and> command_count sk = int k
        \<and> GetNextReport h image_data b sk = Some (r, s')
        \<and> LX r = STICK_MIN h \<and> LY r = STICK_MIN h
        \<and> RX r = STICK_CENTER h \<and> RY r = STICK_CENTER h
        \<and> ((Button r AND SWITCH_LCLICK h = SWITCH_LCLICK h)
             = (int k = ms_2_count h 1500 \<or> int k = ms_2_count h 3000))))
    \<and> (\<exists>sk r s'. run h image_data bufs (3 * (nat (ms_2_count h 4000) + 1)) s = Some sk
        \<and> state sk = SYNC_POSITION \<and> echoes sk \<le> 0
        \<and> command_count sk = ms_2_count h 4000 + 1
        \<and> GetNextReport h image_data b sk = Some (r, s')
        \<and> Button r = 0 \<and> state s' = STOP \<and> xpos s' = 0 \<and> ypos s' = 0)
    \<and> (\<exists>s'. run h image_data bufs (3 * (nat (ms_2_count h 4000) + 2)) s = Some s'
        \<and> state s' = STOP \<and> echoes s' \<le> 0 \<and> xpos s' = 0 \<and> ypos s' = 0)
    \<and> 0 \<le> ms_2_count h 1500 \<and> ms_2_count h 1500 \<le> ms_2_count h 3000
    \<and> ms_2_count h 3000 \<le> ms_2_count h 4000
    \<and> (POLLING_MS h < 1504 \<longrightarrow> ms_2_count h 1500 < ms_2_count h 3000)"
proof -
  let ?l = "splat3_lag_correction_count s"
  have st: "settled s (SYNC_POSITION, xpos s, ypos s, ?l, 0)"
    using assms(3,4,5) by (simp add: settled_def core_def)
  have n: "0 \<le> ms_2_count h 4000" by (simp add: ms_2_count_nonneg)
  have at: "\<exists>sk r s'. run h image_data bufs (3 * k) s = Some sk
      \<and> state sk = SYNC_POSITION \<and> echoes sk \<le> 0 \<and> command_count sk = int k
      \<and> GetNextReport h image_data b sk = Some (r, s')
      \<and> (r, core s') =
        (if int k > ms_2_count h 4000 then (prepare_empty h b, (STOP, 0, 0, ?l, 0))
         else ((prepare_empty h b)\<lparr>LX := STICK_MIN h, LY := STICK_MIN h,
                 Button := (if int k = ms_2_count h 1500 \<or> int k = ms_2_count h 3000
                            then SWITCH_LCLICK h else 0)\<rparr>,
               (SYNC_POSITION, xpos s, ypos s, ?l, int k + 1)))"
    if "int k \<le> ms_2_count h 4000 + 1" for k
  proof -
    from sync_position_ticks [OF assms(1) st, of k image_data] that obtain sk
      where sk: "run h image_data bufs (3 * k) s = Some sk"
        "settled sk (SYNC_POSITION, xpos s, ypos s, ?l, int k)"
      unfolding reaches_def by auto
    from sync_position_core [OF assms(1) sk(2), of image_data b] sk
    show ?thesis by (auto simp: settled_def core_def)
  qed
  have a: "\<exists>sk r s'. run h image_data bufs (3 * k) s = Some sk
        \<and> state sk = SYNC_POSITION \<and> echoes sk \<le> 0 \<and> command_count sk = int k
        \<and> GetNextReport h image_data b sk = Some (r, s')
        \<and> LX r = STICK_MIN h \<and> LY r = STICK_MIN h
        \<and> RX r = STICK_CENTER h \<and> RY r = STICK_CENTER h
        \<and> ((Button r AND SWITCH_LCLICK h = SWITCH_LCLICK h)
             = (int k = ms_2_count h 1500 \<or> int k = ms_2_count h 3000))"
    if "int k \<le> ms_2_count h 4000" for k
  proof -
    from at [of k] that obtain sk r s' where
      "run h image_data bufs (3 * k) s = Some sk" "state sk = SYNC_POSITION" "echoes sk \<le> 0"
      "command_count sk = int k" "GetNextReport h image_data b sk = Some (r, s')"
      "r = (prepare_empty h b)\<lparr>LX := STICK_MIN h, LY := STICK_MIN h,
                 Button := (if int k = ms_2_count h 1500 \<or> int k = ms_2_count h 3000
                            then SWITCH_LCLICK h else 0)\<rparr>"
      by auto
    then show ?thesis using assms(2)
      by (intro exI [of _ sk] exI [of _ r] exI [of _ s']) (auto simp: prepare_empty_eq)
  qed
  have b: "\<exists>sk r s'. run h image_data bufs (3 * (nat (ms_2_count h 4000) + 1)) s = Some sk
        \<and> state sk = SYNC_POSITION \<and> echoes sk \<le> 0
        \<and> command_count sk = ms_2_count h 4000 + 1
        \<and> GetNextReport h image_data b sk = Some (r, s')
        \<and> Button r = 0 \<and> state s' = STOP \<and> xpos s' = 0 \<and> ypos s' = 0"
    using at [of "nat (ms_2_count h 4000) + 1"] n
    by (auto simp: core_def prepare_empty_eq)
  have c: "\<exists>s'. run h image_data bufs (3 * (nat (ms_2_count h 4000) + 2)) s = Some s'
        \<and> state s' = STOP \<and> echoes s' \<le> 0 \<and> xpos s' = 0 \<and> ypos s' = 0"
    using sync_position_phase [OF assms(1) st, of image_data]
    unfolding reaches_def by (auto simp: settled_def core_def)
  show ?thesis
    using a b c checkpoints_ordered [of h] checkpoints_distinct [of h] by blast
qed

theorem sync_position_law_witness:
  "header_ok example_h \<and> SWITCH_LCLICK example_h \<noteq> 0
   \<and> state (init\<lparr>state := SYNC_POSITION, xpos := 5, ypos := 7\<rparr>) = SYNC_POSITION
   \<and> echoes (init\<lparr>state := SYNC_POSITION, xpos := 5, ypos := 7\<rparr>) \<le> 0
   \<and> command_count (init\<lparr>state := SYNC_POSITION, xpos := 5, ypos := 7\<rparr>) = 0
   \<and> ms_2_count example_h 4000 = 250
   \<and> ms_2_count example_h 1500 = 93 \<and> ms_2_count example_h 3000 = 187
   \<and> (\<exists>sk r s'. run example_h (replicate 4801 0) (\<lambda>k. zero_report) 279
          (init\<lparr>state := SYNC_POSITION, xpos := 5, ypos := 7\<rparr>) = Some sk
        \<and> state sk = SYNC_POSITION \<and> command_count sk = 93
        \<and> GetNextReport example_h (replicate 4801 0) zero_report sk = Some (r, s')
        \<and> LX r = 0 \<and> LY r = 0 \<and> RX r = 128 \<and> RY r = 128 \<and> Button r AND 1024 = 1024)
   \<and> (\<exists>sk r s'. run example_h (replicate 4801 0) (\<lambda>k. zero_report) 282
          (init\<lparr>state := SYNC_POSITION, xpos := 5, ypos := 7\<rparr>) = Some sk
        \<and> state sk = SYNC_POSITION \<and> command_count sk = 94
        \<and> GetNextReport example_h (replicate 4801 0) zero_report sk = Some (r, s')
        \<and> LX r = 0 \<and> LY r = 0 \<and> RX r = 128 \<and> RY r = 128 \<and> Button r AND 1024 \<noteq> 1024)
   \<and> (\<exists>s'. run example_h (replicate 4801 0) (\<lambda>k. zero_report) 756
          (init\<lparr>state := SYNC_POSITION, xpos := 5, ypos := 7\<rparr>) = Some s'
        \<and> state s' = STOP \<and> xpos s' = 0 \<and> ypos s' = 0)"
proof -
  let ?s = "init\<lparr>state := SYNC_POSITION, xpos := 5, ypos := 7\<rparr>"
  have f: "SWITCH_LCLICK example_h \<noteq> 0" "state ?s = SYNC_POSITION" "echoes ?s \<le> 0"
    "command_count ?s = 0"
    by (simp_all add: init_def example_h_def)
  have hv: "STICK_MIN example_h = 0" "STICK_CENTER example_h = 128"
    "SWITCH_LCLICK example_h = 1024"
    by (simp_all add: example_h_def)
  note w = sync_position_law [OF header_ok_example f,
      of "replicate 4801 0" "\<lambda>k. zero_report" zero_report]
  from w have a: "\<exists>sk r s'. run example_h (replicate 4801 0) (\<lambda>k. zero_report) (3 * 93) ?s = Some sk
        \<and> state sk = SYNC_POSITION \<and> echoes sk \<le> 0 \<and> command_count sk = int 93
        \<and> GetNextReport example_h (replicate 4801 0) zero_report sk = Some (r, s')
        \<and> LX r = STICK_MIN example_h \<and> LY r = STICK_MIN example_h
        \<and> RX r = STICK_CENTER example_h \<and> RY r = STICK_CENTER example_h
        \<and> ((Button r AND SWITCH_LCLICK example_h = SWITCH_LCLICK example_h)
             = (int 93 = ms_2_count example_h 1500 \<or> int 93 = ms_2_count example_h 3000))"
    by (elim conjE allE [of _ 93]) (simp add: ms_2_count_example)
  from w have b: "\<exists>sk r s'. run example_h (replicate 4801 0) (\<lambda>k. zero_report) (3 * 94) ?s = Some sk
        \<and> state sk = SYNC_POSITION \<and> echoes sk \<le> 0 \<and> command_count sk = int 94
        \<and> GetNextReport example_h (replicate 4801 0) zero_report sk = Some (r, s')
        \<and> LX r = STICK_MIN example_h \<and> LY r = STICK_MIN example_h
        \<and> RX r = STICK_CENTER example_h \<and> RY r = STICK_CENTER example_h
        \<and> ((Button r AND SWITCH_LCLICK example_h = SWITCH_LCLICK example_h)
             = (int 94 = ms_2_count example_h 1500 \<or> int 94 = ms_2_count example_h 3000))"
    by (elim conjE allE [of _ 94]) (simp add: ms_2_count_example)
  from w have c: "\<exists>s'. run example_h (replicate 4801 0) (\<lambda>k. zero_report)
          (3 * (nat (ms_2_count example_h 4000) + 2)) ?s = Some s'
        \<and> state s' = STOP \<and> echoes s' \<le> 0 \<and> xpos s' = 0 \<and> ypos s' = 0"
    by (elim conjE)
  from a have a': "\<exists>sk r s'. run example_h (replicate 4801 0) (\<lambda>k. zero_report) 279 ?s = Some sk
        \<and> state sk = SYNC_POSITION \<and> command_count sk = 93
        \<and> GetNextReport example_h (replicate 4801 0) zero_report sk = Some (r, s')
        \<and> LX r = 0 \<and> LY r = 0 \<and> RX r = 128 \<and> RY r = 128 \<and> Button r AND 1024 = 1024"
    unfolding hv ms_2_count_example by simp blast
  from b have b': "\<exists>sk r s'. run example_h (replicate 4801 0) (\<lambda>k. zero_report) 282 ?s = Some sk
        \<and> state sk = SYNC_POSITION \<and> command_count sk = 94
        \<and> GetNextReport example_h (replicate 4801 0) zero_report sk = Some (r, s')
        \<and> LX r = 0 \<and> LY r = 0 \<and> RX r = 128 \<and> RY r = 128 \<and> Button r AND 1024 \<noteq> 1024"
    unfolding hv ms_2_count_example by simp blast
  from c have c': "\<exists>s'. run example_h (replicate 4801 0) (\<lambda>k. zero_report) 756 ?s = Some s'
        \<and> state s' = STOP \<and> xpos s' = 0 \<and> ypos s' = 0"
    unfolding ms_2_count_example by simp blast
  show ?thesis
    using header_ok_example f a' b' c' ms_2_count_example by blast
qed

subsection \<open>C8: the bitmap query against the spec's layout\<close>

text \<open>
  C8. For all \<open>x\<close> in \<open>[0, 319]\<close> and \<open>y\<close> in \<open>[0, 119]\<close>, the \<open>is_black\<close> query on the
  4801-byte array is defined and is true exactly when bit \<open>x mod 8\<close> of the byte at index
  \<open>x / 8 + y * 40\<close> is 1.
\<close>

theorem is_black_in_range:
  assumes "length image_data = 0x12c1" "0 \<le> x" "x \<le> 319" "0 \<le> y" "y \<le> 119"
  shows "is_black image_data x y = Some (isInk_spec image_data (nat x) (nat y))"
  using assms by (rule is_black_bit)

theorem is_black_in_range_witness:
  "is_black ((replicate 4801 0)[41 := 4]) 10 1 = Some True
   \<and> is_black ((replicate 4801 0)[41 := 4]) 11 1 = Some False"
  using is_black_in_range [of "(replicate 4801 0)[41 := 4]" 10 1]
    is_black_in_range [of "(replicate 4801 0)[41 := 4]" 11 1]
  by (simp add: isInk_spec_def)

subsection \<open>C9: the call in phase DONE\<close>

text \<open>
  C9, as the spec has it: in phase \<open>DONE\<close> with no replay pending, the call returns without
  populating the output report. The code clears the report and centres its sticks and pad
  before it looks at the phase: a buffer that held other values holds the neutral report
  after the call.
\<close>

theorem done_overwrites_report:
  "map_option fst (GetNextReport example_h (replicate 4801 0)
        \<lparr>Button = 0xFFFF, HAT = 3, LX = 1, LY = 2, RX = 3, RY = 4, VendorSpec = 5\<rparr>
        (init\<lparr>state := DONE, ypos := 120\<rparr>))
     = Some \<lparr>Button = 0, HAT = 0, LX = 128, LY = 128, RX = 128, RY = 128, VendorSpec = 0\<rparr>
   \<and> map_option fst (GetNextReport example_h (replicate 4801 0)
        \<lparr>Button = 0xFFFF, HAT = 3, LX = 1, LY = 2, RX = 3, RY = 4, VendorSpec = 5\<rparr>
        (init\<lparr>state := DONE, ypos := 120\<rparr>))
     \<noteq> Some \<lparr>Button = 0xFFFF, HAT = 3, LX = 1, LY = 2, RX = 3, RY = 4, VendorSpec = 5\<rparr>"
  by (simp add: GetNextReport_def prepare_empty_def init_def example_h_def)

text \<open>
  C9, amended: in phase \<open>DONE\<close> with no replay pending, the call leaves the neutral report
  (no button, pad centred, sticks centred) in the output buffer, whatever the buffer held,
  and changes no global: the report is not cached and no replay is armed.
\<close>

theorem done_returns_neutral:
  assumes "state s = DONE" "echoes s \<le> 0"
  shows "GetNextReport h image_data ReportData s =
    Some (\<lparr>Button = 0, HAT = HAT_CENTER h, LX = STICK_CENTER h, LY = STICK_CENTER h,
            RX = STICK_CENTER h, RY = STICK_CENTER h, VendorSpec = 0\<rparr>, s)"
  using assms by (simp add: GetNextReport_def prepare_empty_eq)

theorem done_returns_neutral_witness:
  "state (init\<lparr>state := DONE, ypos := 120\<rparr>) = DONE
   \<and> echoes (init\<lparr>state := DONE, ypos := 120\<rparr>) \<le> 0
   \<and> GetNextReport example_h (replicate 4801 0)
        \<lparr>Button = 0xFFFF, HAT = 3, LX = 1, LY = 2, RX = 3, RY = 4, VendorSpec = 5\<rparr>
        (init\<lparr>state := DONE, ypos := 120\<rparr>) =
      Some (\<lparr>Button = 0, HAT = 0, LX = 128, LY = 128, RX = 128, RY = 128, VendorSpec = 0\<rparr>,
        init\<lparr>state := DONE, ypos := 120\<rparr>)"
  using done_returns_neutral [of "init\<lparr>state := DONE, ypos := 120\<rparr>" example_h
      "replicate 4801 0" "\<lparr>Button = 0xFFFF, HAT = 3, LX = 1, LY = 2, RX = 3, RY = 4, VendorSpec = 5\<rparr>"]
  by (simp add: init_def example_h_def)

subsection \<open>C10: the reads of the image\<close>

text \<open>
  C10. After any number of calls from the initial state, the byte index \<open>x / 8 + y * 40\<close>
  of the cursor is between 0 and 4800, so the read of the 4801-byte array at that index is
  in bounds; the row is at most 120, and it is 120 only at \<open>x = 0\<close>; and the next call,
  which makes the query when it is a fresh call in phase \<open>STOP\<close>, is defined.
\<close>

theorem bitmap_index_in_bounds:
  assumes "header_ok h" "length image_data = 0x12c1"
  shows "\<exists>s. run h image_data bufs n init = Some s
    \<and> 0 \<le> xpos s sdiv 8 + ypos s * 40 \<and> xpos s sdiv 8 + ypos s * 40 \<le> 4800
    \<and> pgm_read_byte image_data (xpos s sdiv 8 + ypos s * 40)
        = Some (image_data ! nat (xpos s sdiv 8 + ypos s * 40))
    \<and> ypos s \<le> 120 \<and> (ypos s = 120 \<longrightarrow> xpos s = 0)
    \<and> (\<exists>r s'. GetNextReport h image_data b s = Some (r, s'))"
proof -
  from inv_run [OF assms inv_init, of bufs n] obtain s
    where s: "run h image_data bufs n init = Some s" "reach_inv s" by blast
  have x: "0 \<le> xpos s" "xpos s \<le> 319" and y: "0 \<le> ypos s" "ypos s \<le> 120"
    and c: "ypos s = 120 \<longrightarrow> xpos s = 0"
    using s(2) by (simp_all add: reach_inv_def)
  have d: "xpos s sdiv 8 = xpos s div 8" using x by (simp add: sdiv_nonneg)
  have lo: "0 \<le> xpos s div 8 + ypos s * 40" using x y by simp
  have hi: "xpos s div 8 + ypos s * 40 \<le> 4800"
  proof (cases "ypos s = 120")
    case True
    then show ?thesis using c by simp
  next
    case False
    then have "ypos s * 40 \<le> 119 * 40" using y by simp
    moreover have "xpos s div 8 \<le> 39" using x by simp
    ultimately show ?thesis by linarith
  qed
  from inv_step [OF assms s(2), of b] have "\<exists>r s'. GetNextReport h image_data b s = Some (r, s')"
    by blast
  then show ?thesis
    using s(1) lo hi y c assms(2) by (simp add: d pgm_read_byte_def)
qed

theorem bitmap_index_in_bounds_witness:
  "header_ok example_h \<and> length (replicate 4801 (0::8 word)) = 0x12c1
   \<and> (\<exists>s. run example_h (replicate 4801 0) (\<lambda>k. zero_report) 238737 init = Some s
    \<and> state s = STOP \<and> xpos s = 0 \<and> ypos s = 120
    \<and> xpos s sdiv 8 + ypos s * 40 = 4800
    \<and> pgm_read_byte (replicate 4801 0) (xpos s sdiv 8 + ypos s * 40) = Some 0
    \<and> (\<exists>r s'. GetNextReport example_h (replicate 4801 0) zero_report s = Some (r, s')))"
proof -
  from bitmap_index_in_bounds [OF header_ok_example, of "replicate 4801 0" "\<lambda>k. zero_report"
      238737 zero_report]
  obtain s where s: "run example_h (replicate 4801 0) (\<lambda>k. zero_report) 238737 init = Some s"
    "pgm_read_byte (replicate 4801 0) (xpos s sdiv 8 + ypos s * 40)
        = Some (replicate 4801 0 ! nat (xpos s sdiv 8 + ypos s * 40))"
    "0 \<le> xpos s sdiv 8 + ypos s * 40" "xpos s sdiv 8 + ypos s * 40 \<le> 4800"
    "\<exists>r s'. GetNextReport example_h (replicate 4801 0) zero_report s = Some (r, s')"
    by auto
  from example_run_end s(1) have p: "state s = STOP" "xpos s = 0" "ypos s = 120" by auto
  show ?thesis using s p header_ok_example by simp
qed

end
